theory Spec2Isabelle
  imports Complex_Main
begin

section \<open>The shutdown orchestrator of \<open>src/cleanup.py\<close>\<close>

text \<open>
  \<open>cleanup()\<close> and \<open>kill_all_threads()\<close> work on two module globals
  (\<open>running_subprocesses\<close>, \<open>thread_executor\<close>) and on objects of the
  runtime: asyncio subprocess handles and their streams, asyncio tasks, the thread pool,
  psutil process handles and threads. The embedding passes one \<open>world\<close> value
  through the code. Every call the code makes on such an object is written to the
  world's \<open>trace\<close>, in program order, and what the call does (return, raise, never
  return) is read from the object, the way a scripted mock answers. The code runs as one
  control path: nothing else adds to the registry while it runs, and nothing cancels the
  task that runs \<open>cleanup()\<close>.
\<close>

subsection \<open>Exceptions and task outcomes\<close>

text \<open>
  An exception value is an instance of Python's \<open>Exception\<close>, kept with the
  text \<open>str()\<close> gives for it. The only class the code names is
  \<open>asyncio.TimeoutError\<close>.
\<close>

datatype exception = TimeoutError string | OtherException string

fun str_exception :: "exception \<Rightarrow> string" where
  "str_exception (TimeoutError msg) = msg"
| "str_exception (OtherException msg) = msg"

fun isinstance_TimeoutError :: "exception \<Rightarrow> bool" where
  "isinstance_TimeoutError (TimeoutError msg) = True"
| "isinstance_TimeoutError (OtherException msg) = False"

text \<open>
  What \<open>asyncio.gather(..., return_exceptions=True)\<close> hands back for one task:
  \<^item> \<open>Value\<close>: the object the task returned, when it is no exception object;
  \<^item> \<open>Returned\<close>: an \<open>Exception\<close> object the task returned as its value;
  \<^item> \<open>CancelledError\<close>: the task acknowledged the cancellation;
  \<^item> \<open>Raised\<close>: the \<open>Exception\<close> the task raised;
  \<^item> \<open>RaisedBase\<close>: a raised \<open>BaseException\<close> that is neither an
    \<open>Exception\<close> nor a \<open>CancelledError\<close>, with its text.
  \<open>CancelledError\<close> derives from \<open>BaseException\<close>, not from
  \<open>Exception\<close>.
\<close>

datatype outcome =
    Value string
  | Returned exception
  | CancelledError
  | Raised exception
  | RaisedBase string

fun isinstance_Exception :: "outcome \<Rightarrow> bool" where
  "isinstance_Exception (Value v) = False"
| "isinstance_Exception (Returned e) = True"
| "isinstance_Exception CancelledError = False"
| "isinstance_Exception (Raised e) = True"
| "isinstance_Exception (RaisedBase msg) = False"

fun isinstance_CancelledError :: "outcome \<Rightarrow> bool" where
  "isinstance_CancelledError CancelledError = True"
| "isinstance_CancelledError r = False"

fun str_outcome :: "outcome \<Rightarrow> string" where
  "str_outcome (Value v) = v"
| "str_outcome (Returned e) = str_exception e"
| "str_outcome CancelledError = []"
| "str_outcome (Raised e) = str_exception e"
| "str_outcome (RaisedBase msg) = msg"

subsection \<open>Objects\<close>

text \<open>How a call that may block answers.\<close>

datatype reply = Done | Fails exception | Never

text \<open>
  A stream handle: \<open>close()\<close> either returns, and the handle is closed, or raises
  and leaves the handle as it was.
\<close>

record stream =
  closed :: bool
  close_raises :: "exception option"

datatype fd = Stdout | Stderr | Stdin

text \<open>
  A tracked subprocess (\<open>asyncio.subprocess.Process\<close>): \<open>pid\<close>,
  \<open>returncode\<close> (\<open>None\<close> while running) and the three streams are its
  attributes. \<open>terminate_raises\<close> and \<open>kill_raises\<close> say whether the signal
  call raises; \<open>wait_result\<close> is what \<open>asyncio.wait_for(proc.wait(), timeout=3)\<close>
  gives after the terminate signal: the exit code, or an exception
  (a \<open>TimeoutError\<close> when the process is still running after the timeout).
\<close>

record proc =
  pid :: nat
  returncode :: "int option"
  stdout :: "stream option"
  stderr :: "stream option"
  stdin :: "stream option"
  terminate_raises :: "exception option"
  wait_result :: "exception + int"
  kill_raises :: "exception option"

fun get_stream :: "fd \<Rightarrow> proc \<Rightarrow> stream option" where
  "get_stream Stdout p = stdout p"
| "get_stream Stderr p = stderr p"
| "get_stream Stdin p = stdin p"

fun set_stream :: "fd \<Rightarrow> stream \<Rightarrow> proc \<Rightarrow> proc" where
  "set_stream Stdout s p = p\<lparr>stdout := Some s\<rparr>"
| "set_stream Stderr s p = p\<lparr>stderr := Some s\<rparr>"
| "set_stream Stdin s p = p\<lparr>stdin := Some s\<rparr>"

text \<open>The thread pool: what \<open>shutdown(wait=True)\<close> does.\<close>

record executor =
  executor_id :: nat
  shutdown_reply :: reply

text \<open>
  An asyncio task: after \<open>cancel()\<close> it settles with an outcome, or it never
  finishes (it swallows the cancellation and keeps running).
\<close>

record task =
  task_id :: nat
  settles :: "outcome option"

text \<open>
  A psutil handle of a descendant process: whether \<open>terminate()\<close> and
  \<open>kill()\<close> raise (\<open>NoSuchProcess\<close>, \<open>AccessDenied\<close>), and whether the
  process is gone when the shared window of \<open>psutil.wait_procs\<close> ends.
\<close>

record child =
  child_pid :: nat
  child_terminate_raises :: "exception option"
  gone_in_window :: bool
  child_kill_raises :: "exception option"

text \<open>The process tree below the current process.\<close>

datatype 'a ptree = PNode 'a "'a ptree list"

record thread =
  thread_name :: string
  is_alive :: bool

subsection \<open>Trace and world\<close>

type_synonym ref = nat

datatype event =
    Print string
  | Shutdown nat bool
  | Terminate ref
  | WaitFor ref rat
  | Kill ref
  | Close ref fd
  | Sleep rat
  | Cancel nat
  | Gather "nat list"
  | PsTerminate nat
  | PsWaitProcs "nat list" rat
  | PsKill nat

text \<open>
  \<open>running_subprocesses\<close> is a Python set of process objects; it is kept as the
  list of their references in the order \<open>pop()\<close> yields them, and \<open>heap\<close>
  holds the objects, so that a process can be inspected after it left the registry.

  Three parts of the world stand for what the libraries decide:
  \<^item> \<open>markup_error\<close>: the exception \<open>console.print\<close> raises for a message
    whose markup it rejects, if it rejects it;
  \<^item> \<open>listing_rank\<close>: psutil fixes no order for
    \<open>children(recursive=True)\<close>; the processes are listed by ascending rank;
  \<^item> \<open>set_rank\<close>: \<open>psutil.wait_procs\<close> returns its two results from
    sets; a set of process handles is read out by ascending rank.
\<close>

record world =
  thread_executor :: "executor option"
  running_subprocesses :: "ref list"
  heap :: "ref \<Rightarrow> proc"
  all_tasks :: "task list"
  current_task :: nat
  process_tree :: "child ptree list"
  threads :: "thread list"
  markup_error :: "string \<Rightarrow> exception option"
  listing_rank :: "child \<Rightarrow> nat"
  set_rank :: "child \<Rightarrow> nat"
  trace :: "event list"

text \<open>
  How a piece of the code ends: it returns a value, an exception leaves it, or it never
  returns. The world reached is kept in each case.
\<close>

datatype 'a result = Returns 'a world | Raises exception world | Blocks world

fun bind :: "'a result \<Rightarrow> ('a \<Rightarrow> world \<Rightarrow> 'b result) \<Rightarrow> 'b result" where
  "bind (Returns x w) f = f x w"
| "bind (Raises e w) f = Raises e w"
| "bind (Blocks w) f = Blocks w"

fun world_of :: "'a result \<Rightarrow> world" where
  "world_of (Returns x w) = w"
| "world_of (Raises e w) = w"
| "world_of (Blocks w) = w"

fun returns :: "'a result \<Rightarrow> bool" where
  "returns (Returns x w) = True"
| "returns r = False"

fun blocks :: "'a result \<Rightarrow> bool" where
  "blocks (Blocks w) = True"
| "blocks r = False"

fun raised :: "'a result \<Rightarrow> exception option" where
  "raised (Raises e w) = Some e"
| "raised r = None"

definition emit :: "event \<Rightarrow> world \<Rightarrow> world" where
  "emit e w = w\<lparr>trace := trace w @ [e]\<rparr>"

text \<open>
  Modelled from the spec: \<open>src/console.py\<close>, which provides \<open>console\<close>, is
  not among the sources. The spec's logging sink takes a message; the messages of
  \<open>cleanup.py\<close> are written in console markup (\<open>[yellow]...[/yellow]\<close>).

  \<open>console_print\<close> is \<open>console.print\<close> on a message whose markup the source
  fixes: literal tags, in matching pairs, around literal text and a number. The console
  prints it.

  \<open>console_print_text\<close> is \<open>console.print\<close> on a message into which the
  source splices text of the program being shut down, unescaped: the text of a task's
  exception, the name of a thread. The console prints it unless it rejects the markup
  (a closing tag in the text that matches no open tag); then the call raises and nothing
  is printed.
\<close>

definition console_print :: "string \<Rightarrow> world \<Rightarrow> world" where
  "console_print msg w = emit (Print msg) w"

definition console_print_text :: "string \<Rightarrow> world \<Rightarrow> unit result" where
  "console_print_text msg w =
     (case markup_error w msg of
        None \<Rightarrow> Returns () (emit (Print msg) w)
      | Some e \<Rightarrow> Raises e w)"

subsection \<open>Formatting\<close>

text \<open>\<open>str(n)\<close> for a natural number: its decimal digits.\<close>

definition digit :: "nat \<Rightarrow> char" where
  "digit n = ''0123456789'' ! (n mod 10)"

fun str_nat :: "nat \<Rightarrow> string" where
  "str_nat n = (if n < 10 then [digit n] else str_nat (n div 10) @ [digit (n mod 10)])"

declare str_nat.simps [simp del]

fun str_bool :: "bool \<Rightarrow> string" where
  "str_bool True = ''True''"
| "str_bool False = ''False''"

subsection \<open>\<open>cleanup\<close>, step 1: the thread pool\<close>

text \<open>
  \<^verbatim>\<open>
  if thread_executor:
      console.print("[yellow]Shutting down thread pool executor...[/yellow]")
      thread_executor.shutdown(wait=True)
      thread_executor = None
  \<close>
\<close>

definition pool_shutdown :: "world \<Rightarrow> unit result" where
  "pool_shutdown w =
     (case thread_executor w of
        None \<Rightarrow> Returns () w
      | Some ex \<Rightarrow>
          (let w1 = console_print ''[yellow]Shutting down thread pool executor...[/yellow]'' w;
               w2 = emit (Shutdown (executor_id ex) True) w1
           in case shutdown_reply ex of
                Done \<Rightarrow> Returns () (w2\<lparr>thread_executor := None\<rparr>)
              | Fails e \<Rightarrow> Raises e w2
              | Never \<Rightarrow> Blocks w2))"

subsection \<open>\<open>cleanup\<close>, step 3: the tracked subprocesses\<close>

text \<open>
  The body of \<open>if proc.returncode is None\<close>: terminate, wait with the timeout,
  kill on \<open>asyncio.TimeoutError\<close>. No other exception is caught here, and
  \<open>terminate()\<close> and \<open>kill()\<close> are outside the \<open>try\<close>.
\<close>

definition stop_process :: "ref \<Rightarrow> world \<Rightarrow> unit result" where
  "stop_process r w =
     (let p = heap w r in
      if returncode p = None then
        (let w1 = console_print (''[yellow]Terminating subprocess '' @ str_nat (pid p) @ ''...[/yellow]'') w;
             w2 = emit (Terminate r) w1
         in case terminate_raises p of
              Some e \<Rightarrow> Raises e w2
            | None \<Rightarrow>
                (let w3 = emit (WaitFor r 3) w2
                 in case wait_result p of
                      Inr rc \<Rightarrow>
                        Returns () (w3\<lparr>heap := (heap w3)(r := (heap w3 r)\<lparr>returncode := Some rc\<rparr>)\<rparr>)
                    | Inl e \<Rightarrow>
                        if isinstance_TimeoutError e then
                          (let w4 = console_print (''[red]Subprocess '' @ str_nat (pid p)
                                      @ '' did not exit in time, force killing.[/red]'') w3;
                               w5 = emit (Kill r) w4
                           in case kill_raises p of
                                Some e' \<Rightarrow> Raises e' w5
                              | None \<Rightarrow> Returns () w5)
                        else Raises e w3))
      else Returns () w)"

text \<open>
  \<^verbatim>\<open>
  if stream:
      try:
          stream.close()
      except Exception:
          pass
  \<close>
\<close>

definition close_stream :: "ref \<Rightarrow> fd \<Rightarrow> world \<Rightarrow> world" where
  "close_stream r f w =
     (case get_stream f (heap w r) of
        None \<Rightarrow> w
      | Some s \<Rightarrow>
          (let w1 = emit (Close r f) w
           in case close_raises s of
                None \<Rightarrow> w1\<lparr>heap := (heap w1)(r := set_stream f (s\<lparr>closed := True\<rparr>) (heap w1 r))\<rparr>
              | Some e \<Rightarrow> w1))"

text \<open>\<open>for stream in (proc.stdout, proc.stderr, proc.stdin)\<close>\<close>

definition close_streams :: "ref \<Rightarrow> world \<Rightarrow> world" where
  "close_streams r w = fold (close_stream r) [Stdout, Stderr, Stdin] w"

text \<open>
  \<^verbatim>\<open>
  while running_subprocesses:
      proc = running_subprocesses.pop()
      ...
  \<close>
  The loop reads the global again in every round.
\<close>

function drain_registry :: "world \<Rightarrow> unit result" where
  "drain_registry w =
     (case running_subprocesses w of
        [] \<Rightarrow> Returns () w
      | r # rest \<Rightarrow>
          (case stop_process r (w\<lparr>running_subprocesses := rest\<rparr>) of
             Returns u w1 \<Rightarrow> drain_registry (close_streams r w1)
           | Raises e w1 \<Rightarrow> Raises e w1
           | Blocks w1 \<Rightarrow> Blocks w1))"
  by pat_completeness auto
termination
proof (relation "measure (\<lambda>w. length (running_subprocesses w))")
  show "wf (measure (\<lambda>w. length (running_subprocesses w)))"
    by simp
next
  fix w :: world and r rest u w1
  assume reg: "running_subprocesses w = r # rest"
    and stop: "stop_process r (w\<lparr>running_subprocesses := rest\<rparr>) = Returns u w1"
  from stop have "running_subprocesses w1 = rest"
    by (auto simp: stop_process_def console_print_def emit_def Let_def
        split: if_splits option.splits sum.splits)
  moreover have "running_subprocesses (close_streams r w1) = running_subprocesses w1"
    by (simp add: close_streams_def close_stream_def emit_def Let_def split: option.splits)
  ultimately show "(close_streams r w1, w) \<in> measure (\<lambda>w. length (running_subprocesses w))"
    using reg by simp
qed

declare drain_registry.simps [simp del]

subsection \<open>\<open>cleanup\<close>, step 5: the tasks\<close>

definition asyncio_sleep :: "rat \<Rightarrow> world \<Rightarrow> world" where
  "asyncio_sleep d w = emit (Sleep d) w"

text \<open>\<open>for task in tasks: task.cancel()\<close>\<close>

fun cancel_all :: "task list \<Rightarrow> world \<Rightarrow> world" where
  "cancel_all [] w = w"
| "cancel_all (t # ts) w = cancel_all ts (emit (Cancel (task_id t)) w)"

text \<open>
  \<open>asyncio.gather(*tasks, return_exceptions=True)\<close> has no timeout: it returns the
  outcomes, in the order of \<open>tasks\<close>, once every task has settled.
\<close>

fun outcomes :: "task list \<Rightarrow> outcome list option" where
  "outcomes [] = Some []"
| "outcomes (t # ts) =
     (case settles t of
        None \<Rightarrow> None
      | Some r \<Rightarrow> (case outcomes ts of None \<Rightarrow> None | Some rs \<Rightarrow> Some (r # rs)))"

definition gather :: "task list \<Rightarrow> world \<Rightarrow> outcome list result" where
  "gather ts w =
     (let w1 = emit (Gather (map task_id ts)) w
      in case outcomes ts of None \<Rightarrow> Blocks w1 | Some rs \<Rightarrow> Returns rs w1)"

text \<open>
  \<^verbatim>\<open>
  tasks = [t for t in asyncio.all_tasks() if t is not asyncio.current_task()]
  console.print(f"[yellow]Cancelling {len(tasks)} remaining tasks...[/yellow]")
  for task in tasks:
      task.cancel()
  await asyncio.sleep(0.1)
  results = await asyncio.gather(*tasks, return_exceptions=True)
  \<close>
\<close>

definition cancel_tasks :: "world \<Rightarrow> outcome list result" where
  "cancel_tasks w =
     (let tasks = filter (\<lambda>t. task_id t \<noteq> current_task w) (all_tasks w);
          w1 = console_print (''[yellow]Cancelling '' @ str_nat (length tasks)
                 @ '' remaining tasks...[/yellow]'') w;
          w2 = cancel_all tasks w1;
          w3 = asyncio_sleep (1 / 10) w2
      in gather tasks w3)"

text \<open>
  \<^verbatim>\<open>
  for result in results:
      if isinstance(result, Exception) and not isinstance(result, asyncio.CancelledError):
          console.print(f"[red]Error during cleanup: {result}[/red]")
  \<close>
\<close>

fun triage :: "outcome list \<Rightarrow> world \<Rightarrow> unit result" where
  "triage [] w = Returns () w"
| "triage (r # rs) w =
     (if isinstance_Exception r \<and> \<not> isinstance_CancelledError r
      then (case console_print_text
                  (''[red]Error during cleanup: '' @ str_outcome r @ ''[/red]'') w of
              Returns u w1 \<Rightarrow> triage rs w1
            | Raises e w1 \<Rightarrow> Raises e w1
            | Blocks w1 \<Rightarrow> Blocks w1)
      else triage rs w)"

subsection \<open>\<open>kill_all_threads\<close>\<close>

text \<open>
  \<open>psutil.Process().children(recursive)\<close> on the tree below the current
  process: the direct children, or with \<open>recursive=True\<close> every descendant. The
  order of the list is psutil's; here it is the order of the ranks given.
\<close>

fun root :: "'a ptree \<Rightarrow> 'a" where
  "root (PNode c ts) = c"

fun descendants :: "'a ptree \<Rightarrow> 'a list" where
  "descendants (PNode c ts) = c # concat (map descendants ts)"

fun children :: "('a \<Rightarrow> nat) \<Rightarrow> bool \<Rightarrow> 'a ptree list \<Rightarrow> 'a list" where
  "children rank False ts = sort_key rank (map root ts)"
| "children rank True ts = sort_key rank (concat (map descendants ts))"

text \<open>
  \<^verbatim>\<open>
  for child in children:
      console.print(f"[yellow]Terminating process {child.pid}...[/yellow]")
      child.terminate()
  \<close>
\<close>

fun terminate_children :: "child list \<Rightarrow> world \<Rightarrow> unit result" where
  "terminate_children [] w = Returns () w"
| "terminate_children (c # cs) w =
     (let w1 = console_print (''[yellow]Terminating process '' @ str_nat (child_pid c)
                 @ ''...[/yellow]'') w;
          w2 = emit (PsTerminate (child_pid c)) w1
      in case child_terminate_raises c of
           Some e \<Rightarrow> Raises e w2
         | None \<Rightarrow> terminate_children cs w2)"

text \<open>
  \<open>psutil.wait_procs(children, timeout=3)\<close> waits for the whole list with one
  timeout and returns the processes that are gone and those still alive, each read out
  of a set.
\<close>

definition wait_procs :: "child list \<Rightarrow> rat \<Rightarrow> world \<Rightarrow> (child list \<times> child list) result" where
  "wait_procs cs timeout w =
     Returns (sort_key (set_rank w) (remdups (filter gone_in_window cs)),
              sort_key (set_rank w) (remdups (filter (\<lambda>c. \<not> gone_in_window c) cs)))
       (emit (PsWaitProcs (map child_pid cs) timeout) w)"

text \<open>
  \<^verbatim>\<open>
  for child in still_alive:
      console.print(f"[red]Force killing stubborn process: {child.pid}[/red]")
      child.kill()
  \<close>
\<close>

fun kill_children :: "child list \<Rightarrow> world \<Rightarrow> unit result" where
  "kill_children [] w = Returns () w"
| "kill_children (c # cs) w =
     (let w1 = console_print (''[red]Force killing stubborn process: '' @ str_nat (child_pid c)
                 @ ''[/red]'') w;
          w2 = emit (PsKill (child_pid c)) w1
      in case child_kill_raises c of
           Some e \<Rightarrow> Raises e w2
         | None \<Rightarrow> kill_children cs w2)"

text \<open>
  \<^verbatim>\<open>
  for thread in threading.enumerate():
      if not thread.is_alive():
          del thread
  \<close>
  \<open>del\<close> unbinds the loop variable and nothing else.
\<close>

fun drop_dead_threads :: "thread list \<Rightarrow> world \<Rightarrow> world" where
  "drop_dead_threads [] w = w"
| "drop_dead_threads (t # ts) w = drop_dead_threads ts (if \<not> is_alive t then w else w)"

text \<open>
  \<^verbatim>\<open>
  for t in active_threads:
      console.print(f"  - {t.name} (Alive: {t.is_alive()})")
  \<close>
\<close>

fun report_threads :: "thread list \<Rightarrow> world \<Rightarrow> unit result" where
  "report_threads [] w = Returns () w"
| "report_threads (t # ts) w =
     (case console_print_text
             (''  - '' @ thread_name t @ '' (Alive: '' @ str_bool (is_alive t) @ '')'') w of
        Returns u w1 \<Rightarrow> report_threads ts w1
      | Raises e w1 \<Rightarrow> Raises e w1
      | Blocks w1 \<Rightarrow> Blocks w1)"

text \<open>
  The end of \<open>kill_all_threads\<close>: the two loops over
  \<open>threading.enumerate()\<close> and the closing message.
\<close>

definition thread_report :: "world \<Rightarrow> unit result" where
  "thread_report w =
     (let w1 = drop_dead_threads (threads w) w;
          active_threads = threads w1;
          w2 = console_print (''[bold yellow]Remaining active threads:[/bold yellow] ''
                 @ str_nat (length active_threads)) w1
      in bind (report_threads active_threads w2) (\<lambda>_ w3.
           Returns () (console_print ''[green]Thread cleanup completed.[/green]'' w3)))"

definition kill_all_threads :: "world \<Rightarrow> unit result" where
  "kill_all_threads w =
     (let w1 = console_print ''[yellow]Checking for remaining background threads...[/yellow]'' w;
          children = children (listing_rank w1) True (process_tree w1)
      in bind (terminate_children children w1) (\<lambda>_ w2.
         bind (wait_procs children 3 w2) (\<lambda>(gone, still_alive) w3.
         bind (kill_children still_alive w3) (\<lambda>_ w4.
           thread_report w4))))"

subsection \<open>\<open>cleanup\<close>\<close>

definition cleanup :: "world \<Rightarrow> unit result" where
  "cleanup w =
     (let w1 = console_print ''[yellow]Cleaning up tasks before exiting...[/yellow]'' w
      in bind (pool_shutdown w1) (\<lambda>_ w2.
         bind (drain_registry w2) (\<lambda>_ w3.
         bind (cancel_tasks (asyncio_sleep (1 / 10) w3)) (\<lambda>results w4.
         bind (triage results w4) (\<lambda>_ w5.
         bind (kill_all_threads w5) (\<lambda>_ w6.
           Returns () (console_print ''[green]Cleanup completed. Exiting safely.[/green]'' w6)))))))"

section \<open>Vocabulary of the properties\<close>

subsection \<open>Reading a result\<close>

fun timed_out :: "exception + int \<Rightarrow> bool" where
  "timed_out (Inl e) = isinstance_TimeoutError e"
| "timed_out (Inr rc) = False"

text \<open>
  The exception that the calls on a tracked subprocess let through, if any: that of
  \<open>terminate()\<close>, else that of the wait when it is no timeout, else that of
  \<open>kill()\<close> after a timeout. A process that has already exited receives no call.
\<close>

definition call_failure :: "proc \<Rightarrow> exception option" where
  "call_failure p =
     (if returncode p \<noteq> None then None
      else case terminate_raises p of
             Some e \<Rightarrow> Some e
           | None \<Rightarrow>
               (case wait_result p of
                  Inr rc \<Rightarrow> None
                | Inl e \<Rightarrow> if isinstance_TimeoutError e then kill_raises p else Some e))"

text \<open>
  The external calls of a tracked subprocess return, whatever state the process is in:
  \<open>terminate()\<close> does not raise, the wait either gives an exit code or raises the
  timeout, and after a timeout \<open>kill()\<close> does not raise.
\<close>

definition calls_return :: "proc \<Rightarrow> bool" where
  "calls_return p \<longleftrightarrow>
     (returncode p = None \<longrightarrow>
        terminate_raises p = None \<and>
        (case wait_result p of
           Inr rc \<Rightarrow> True
         | Inl e \<Rightarrow> isinstance_TimeoutError e \<and> kill_raises p = None))"

text \<open>The outcomes for which triage prints a line, and the lines with spliced text.\<close>

fun reported :: "outcome \<Rightarrow> bool" where
  "reported (Raised e) = True"
| "reported (Returned e) = True"
| "reported r = False"

definition error_line :: "outcome \<Rightarrow> string" where
  "error_line r = ''[red]Error during cleanup: '' @ str_outcome r @ ''[/red]''"

definition thread_line :: "thread \<Rightarrow> string" where
  "thread_line t = ''  - '' @ thread_name t @ '' (Alive: '' @ str_bool (is_alive t) @ '')''"

text \<open>The conditions on the environment under which no call of \<open>cleanup\<close> raises.\<close>

definition pool_ok :: "world \<Rightarrow> bool" where
  "pool_ok w \<longleftrightarrow> (case thread_executor w of None \<Rightarrow> True | Some ex \<Rightarrow> shutdown_reply ex = Done)"

definition pool_never :: "world \<Rightarrow> bool" where
  "pool_never w \<longleftrightarrow> (case thread_executor w of None \<Rightarrow> False | Some ex \<Rightarrow> shutdown_reply ex = Never)"

definition procs_ok :: "world \<Rightarrow> bool" where
  "procs_ok w \<longleftrightarrow> list_all (\<lambda>r. calls_return (heap w r)) (running_subprocesses w)"

definition tasks_settle :: "world \<Rightarrow> bool" where
  "tasks_settle w \<longleftrightarrow>
     list_all (\<lambda>t. task_id t \<noteq> current_task w \<longrightarrow> settles t \<noteq> None) (all_tasks w)"

definition reaper_ok :: "world \<Rightarrow> bool" where
  "reaper_ok w \<longleftrightarrow>
     list_all (\<lambda>c. child_terminate_raises c = None \<and> (\<not> gone_in_window c \<longrightarrow> child_kill_raises c = None))
       (children (listing_rank w) True (process_tree w))"

text \<open>
  The console accepts every line with spliced text that \<open>cleanup\<close> can come to
  print: the error line of each reported outcome and the line of each thread.
\<close>

definition console_ok :: "world \<Rightarrow> bool" where
  "console_ok w \<longleftrightarrow>
     list_all (\<lambda>t. task_id t \<noteq> current_task w \<longrightarrow>
         (case settles t of
            None \<Rightarrow> True
          | Some r \<Rightarrow> reported r \<longrightarrow> markup_error w (error_line r) = None))
       (all_tasks w) \<and>
     list_all (\<lambda>t. markup_error w (thread_line t) = None) (threads w)"

subsection \<open>Reading the trace\<close>

text \<open>The signal and wait calls made on the tracked subprocess \<open>r\<close>.\<close>

fun signals :: "ref \<Rightarrow> event \<Rightarrow> bool" where
  "signals r (Terminate r') = (r' = r)"
| "signals r (WaitFor r' d) = (r' = r)"
| "signals r (Kill r') = (r' = r)"
| "signals r e = False"

text \<open>
  The calls on a tracked subprocess that the termination protocol starts: none when the
  exit status is set; else \<open>terminate()\<close>; when that returns, the wait with the
  timeout 3; when that times out, \<open>kill()\<close>.
\<close>

definition protocol :: "ref \<Rightarrow> proc \<Rightarrow> event list" where
  "protocol r p =
     (if returncode p = None
      then Terminate r #
             (if terminate_raises p = None
              then WaitFor r 3 # (if timed_out (wait_result p) then [Kill r] else [])
              else [])
      else [])"

text \<open>The \<open>close()\<close> calls made on the streams of \<open>r\<close>.\<close>

fun closes :: "ref \<Rightarrow> event \<Rightarrow> bool" where
  "closes r (Close r' f) = (r' = r)"
| "closes r e = False"

text \<open>The streams a process has, in the order the code visits them.\<close>

definition present :: "proc \<Rightarrow> fd list" where
  "present p = filter (\<lambda>f. get_stream f p \<noteq> None) [Stdout, Stderr, Stdin]"

text \<open>A stream after one \<open>close()\<close> call.\<close>

definition after_close :: "stream \<Rightarrow> stream" where
  "after_close s = (if close_raises s = None then s\<lparr>closed := True\<rparr> else s)"

text \<open>The calls of the process reaper.\<close>

fun reaper_signal :: "event \<Rightarrow> bool" where
  "reaper_signal (PsTerminate p) = True"
| "reaper_signal (PsWaitProcs ps d) = True"
| "reaper_signal (PsKill p) = True"
| "reaper_signal e = False"

text \<open>A list up to and including its first element with the property.\<close>

fun through_first :: "('a \<Rightarrow> bool) \<Rightarrow> 'a list \<Rightarrow> 'a list" where
  "through_first P [] = []"
| "through_first P (x # xs) = (if P x then [x] else x # through_first P xs)"

fun is_shutdown :: "event \<Rightarrow> bool" where
  "is_shutdown (Shutdown x wait) = True"
| "is_shutdown e = False"

text \<open>
  A wait or delay carries the bound the source gives it: 3 for the two waits on
  processes, 0.1 for a sleep. \<open>Gather\<close> and \<open>Shutdown\<close> carry no bound at all.
\<close>

fun bounded :: "event \<Rightarrow> bool" where
  "bounded (WaitFor r d) = (d = 3)"
| "bounded (Sleep d) = (d = 1 / 10)"
| "bounded (PsWaitProcs ps d) = (d = 3)"
| "bounded e = True"

definition routine :: "event \<Rightarrow> bool" where
  "routine e \<longleftrightarrow> bounded e \<and> \<not> is_shutdown e"

text \<open>The events a run has added to the trace.\<close>

definition emitted :: "world \<Rightarrow> world \<Rightarrow> event list" where
  "emitted w w' = drop (length (trace w)) (trace w')"

definition grows :: "(event \<Rightarrow> bool) \<Rightarrow> world \<Rightarrow> world \<Rightarrow> bool" where
  "grows K w w' \<longleftrightarrow> (\<exists>evs. trace w' = trace w @ evs \<and> list_all K evs)"

subsection \<open>What a piece of code leaves alone\<close>

definition unchanged :: "world \<Rightarrow> world \<Rightarrow> bool" where
  "unchanged w w' \<longleftrightarrow>
     thread_executor w' = thread_executor w \<and> running_subprocesses w' = running_subprocesses w \<and>
     heap w' = heap w \<and> all_tasks w' = all_tasks w \<and> current_task w' = current_task w \<and>
     process_tree w' = process_tree w \<and> threads w' = threads w \<and>
     markup_error w' = markup_error w \<and> listing_rank w' = listing_rank w \<and>
     set_rank w' = set_rank w"

definition same_runtime :: "world \<Rightarrow> world \<Rightarrow> bool" where
  "same_runtime w w' \<longleftrightarrow>
     thread_executor w' = thread_executor w \<and> all_tasks w' = all_tasks w \<and>
     current_task w' = current_task w \<and> process_tree w' = process_tree w \<and>
     threads w' = threads w \<and> markup_error w' = markup_error w \<and>
     listing_rank w' = listing_rank w \<and> set_rank w' = set_rank w"

section \<open>Example runs\<close>

text \<open>
  A stream of an asyncio subprocess: \<open>proc.stdin\<close> is a \<open>StreamWriter\<close> and
  closes; \<open>proc.stdout\<close> and \<open>proc.stderr\<close> are \<open>StreamReader\<close>s, which
  have no \<open>close\<close> method, so the call raises \<open>AttributeError\<close>.
\<close>

definition writer :: stream where
  "writer = \<lparr>closed = False, close_raises = None\<rparr>"

definition reader :: stream where
  "reader = \<lparr>closed = False,
     close_raises = Some (OtherException ''StreamReader object has no attribute close'')\<rparr>"

text \<open>
  Tracked subprocesses: one exits with code 0 inside the timeout, one never answers the
  terminate signal, one had exited before \<open>cleanup\<close> ran; for one
  \<open>terminate()\<close> raises, for one \<open>kill()\<close> raises after the timeout.
\<close>

definition graceful :: proc where
  "graceful = \<lparr>pid = 4101, returncode = None, stdout = Some reader, stderr = None,
     stdin = Some writer, terminate_raises = None, wait_result = Inr 0, kill_raises = None\<rparr>"

definition stubborn :: proc where
  "stubborn = \<lparr>pid = 4102, returncode = None, stdout = Some reader, stderr = Some reader,
     stdin = Some writer, terminate_raises = None, wait_result = Inl (TimeoutError []),
     kill_raises = None\<rparr>"

definition exited :: proc where
  "exited = \<lparr>pid = 4103, returncode = Some 1, stdout = None, stderr = None,
     stdin = Some writer, terminate_raises = None, wait_result = Inr 1, kill_raises = None\<rparr>"

definition vanished :: proc where
  "vanished = \<lparr>pid = 4104, returncode = None, stdout = Some reader, stderr = None,
     stdin = Some writer, terminate_raises = Some (OtherException ''ProcessLookupError''),
     wait_result = Inr 0, kill_raises = None\<rparr>"

definition unkillable :: proc where
  "unkillable = \<lparr>pid = 4105, returncode = None, stdout = Some reader, stderr = None,
     stdin = Some writer, terminate_raises = None, wait_result = Inl (TimeoutError []),
     kill_raises = Some (OtherException ''PermissionError'')\<rparr>"

text \<open>
  The scenario: a pool whose shutdown returns, three processes, the caller's task and
  five others (three acknowledge the cancellation, two raise), a child with a grandchild
  that survives the window, two threads, a console that accepts every message.
\<close>

definition scenario :: world where
  "scenario =
     \<lparr>thread_executor = Some \<lparr>executor_id = 1, shutdown_reply = Done\<rparr>,
      running_subprocesses = [1, 2, 3],
      heap = (\<lambda>r. if r = 1 then graceful else if r = 2 then stubborn else exited),
      all_tasks =
        [\<lparr>task_id = 0, settles = None\<rparr>,
         \<lparr>task_id = 1, settles = Some CancelledError\<rparr>,
         \<lparr>task_id = 2, settles = Some (Raised (OtherException ''boom''))\<rparr>,
         \<lparr>task_id = 3, settles = Some CancelledError\<rparr>,
         \<lparr>task_id = 4, settles = Some (Raised (TimeoutError ''late''))\<rparr>,
         \<lparr>task_id = 5, settles = Some CancelledError\<rparr>],
      current_task = 0,
      process_tree =
        [PNode \<lparr>child_pid = 500, child_terminate_raises = None, gone_in_window = True,
                 child_kill_raises = None\<rparr>
           [PNode \<lparr>child_pid = 501, child_terminate_raises = None, gone_in_window = False,
                    child_kill_raises = None\<rparr> []]],
      threads = [\<lparr>thread_name = ''MainThread'', is_alive = True\<rparr>,
                 \<lparr>thread_name = ''Thread-1'', is_alive = True\<rparr>],
      markup_error = (\<lambda>msg. None),
      listing_rank = child_pid,
      set_rank = child_pid,
      trace = []\<rparr>"

text \<open>Nothing to clean up: no pool, no subprocess, no task but the caller's, no child.\<close>

definition idle :: world where
  "idle =
     \<lparr>thread_executor = None, running_subprocesses = [],
      heap = (\<lambda>r. exited),
      all_tasks = [\<lparr>task_id = 0, settles = None\<rparr>], current_task = 0,
      process_tree = [],
      threads = [\<lparr>thread_name = ''MainThread'', is_alive = True\<rparr>],
      markup_error = (\<lambda>msg. None),
      listing_rank = child_pid,
      set_rank = child_pid,
      trace = []\<rparr>"


text \<open>
  Two children; the first listed is gone when \<open>terminate()\<close> is called on it, the
  second is running and would survive the window.
\<close>

definition first_child_gone :: world where
  "first_child_gone =
     idle\<lparr>process_tree :=
       [PNode \<lparr>child_pid = 700,
                child_terminate_raises = Some (OtherException ''psutil.NoSuchProcess: 700''),
                gone_in_window = True, child_kill_raises = None\<rparr> [],
        PNode \<lparr>child_pid = 701, child_terminate_raises = None, gone_in_window = False,
                child_kill_raises = None\<rparr> []]\<rparr>"

text \<open>One task swallows the cancellation and keeps running.\<close>

definition deaf_task :: world where
  "deaf_task =
     idle\<lparr>all_tasks := [\<lparr>task_id = 0, settles = None\<rparr>, \<lparr>task_id = 7, settles = None\<rparr>]\<rparr>"


text \<open>
  Two tracked subprocesses; \<open>terminate()\<close> raises for the one popped first.
\<close>

definition terminate_fails :: world where
  "terminate_fails =
     idle\<lparr>running_subprocesses := [1, 2],
          heap := (\<lambda>r. if r = 1 then vanished else graceful)\<rparr>"

text \<open>
  Two tracked subprocesses; the one popped first ignores the terminate signal and
  \<open>kill()\<close> raises for it.
\<close>

definition kill_fails :: world where
  "kill_fails =
     idle\<lparr>running_subprocesses := [1, 2],
          heap := (\<lambda>r. if r = 1 then unkillable else graceful)\<rparr>"


section \<open>Facts about the stages\<close>

subsection \<open>Writing to the trace\<close>

lemma trace_emit [simp]: "trace (emit e w) = trace w @ [e]"
  by (simp add: emit_def)

lemma registry_emit [simp]: "running_subprocesses (emit e w) = running_subprocesses w"
  by (simp add: emit_def)

lemma heap_emit [simp]: "heap (emit e w) = heap w"
  by (simp add: emit_def)

lemma executor_emit [simp]: "thread_executor (emit e w) = thread_executor w"
  by (simp add: emit_def)

lemma tasks_emit [simp]: "all_tasks (emit e w) = all_tasks w"
  by (simp add: emit_def)

lemma current_emit [simp]: "current_task (emit e w) = current_task w"
  by (simp add: emit_def)

lemma tree_emit [simp]: "process_tree (emit e w) = process_tree w"
  by (simp add: emit_def)

lemma threads_emit [simp]: "threads (emit e w) = threads w"
  by (simp add: emit_def)

lemma console_emit [simp]: "markup_error (emit e w) = markup_error w"
  by (simp add: emit_def)

lemma listing_emit [simp]: "listing_rank (emit e w) = listing_rank w"
  by (simp add: emit_def)

lemma set_rank_emit [simp]: "set_rank (emit e w) = set_rank w"
  by (simp add: emit_def)

lemma registry_close_stream [simp]:
  "running_subprocesses (close_stream r f w) = running_subprocesses w"
  by (simp add: close_stream_def Let_def split: option.splits)

lemma registry_close_streams [simp]:
  "running_subprocesses (close_streams r w) = running_subprocesses w"
  by (simp add: close_streams_def)

lemma registry_stop_process:
  "stop_process r w = Returns u w' \<Longrightarrow> running_subprocesses w' = running_subprocesses w"
  by (auto simp: stop_process_def console_print_def Let_def
      split: if_splits option.splits sum.splits)

subsection \<open>One tracked subprocess\<close>

declare console_print_def [simp] asyncio_sleep_def [simp]

lemma calls_return_failure: "calls_return p \<longleftrightarrow> call_failure p = None"
  by (auto simp: calls_return_def call_failure_def split: option.splits sum.splits)

lemma stop_process_raised: "raised (stop_process r w) = call_failure (heap w r)"
  unfolding stop_process_def Let_def call_failure_def
  by (cases "returncode (heap w r)"; cases "terminate_raises (heap w r)";
      cases "wait_result (heap w r)"; cases "kill_raises (heap w r)") simp_all

lemma stop_process_returns_iff:
  "returns (stop_process r w) \<longleftrightarrow> calls_return (heap w r)"
  unfolding stop_process_def Let_def calls_return_def
  by (cases "returncode (heap w r)"; cases "terminate_raises (heap w r)";
      cases "wait_result (heap w r)"; cases "kill_raises (heap w r)") simp_all

lemma stop_process_returns:
  "calls_return (heap w r) \<Longrightarrow> returns (stop_process r w)"
  by (simp add: stop_process_returns_iff)

lemma stop_process_not_blocks: "\<not> blocks (stop_process r w)"
  by (auto simp: stop_process_def Let_def split: option.splits sum.splits)

lemma stop_process_signals:
  "filter (signals r) (trace (world_of (stop_process r0 w))) =
   filter (signals r) (trace w) @ (if r = r0 then protocol r (heap w r0) else [])"
  unfolding stop_process_def Let_def protocol_def
  by (cases "returncode (heap w r0)"; cases "terminate_raises (heap w r0)";
      cases "wait_result (heap w r0)"; cases "kill_raises (heap w r0)") simp_all

lemma stop_process_last:
  "raised (stop_process r w) \<noteq> None \<Longrightarrow> signals r (last (trace (world_of (stop_process r w))))"
  unfolding stop_process_def Let_def
  by (cases "returncode (heap w r)"; cases "terminate_raises (heap w r)";
      cases "wait_result (heap w r)"; cases "kill_raises (heap w r)") (simp_all split: if_splits)

lemma stop_process_closes:
  "filter (closes r) (trace (world_of (stop_process r0 w))) = filter (closes r) (trace w)"
  by (auto simp: stop_process_def Let_def split: option.splits sum.splits)

lemma stop_process_heap_other:
  "r \<noteq> r0 \<Longrightarrow> heap (world_of (stop_process r0 w)) r = heap w r"
  by (auto simp: stop_process_def Let_def split: option.splits sum.splits)

lemma stop_process_streams:
  "get_stream f (heap (world_of (stop_process r0 w)) r) = get_stream f (heap w r)"
  by (cases f) (auto simp: stop_process_def Let_def split: option.splits sum.splits)

lemma stop_process_calls_return:
  "calls_return (heap w r) \<Longrightarrow> calls_return (heap (world_of (stop_process r0 w)) r)"
  by (auto simp: stop_process_def calls_return_def Let_def split: option.splits sum.splits)

lemma close_stream_trace:
  "trace (close_stream r0 f w) =
   trace w @ (if get_stream f (heap w r0) = None then [] else [Close r0 f])"
  by (auto simp: close_stream_def Let_def split: option.splits)

lemma close_stream_heap_other:
  "r \<noteq> r0 \<Longrightarrow> heap (close_stream r0 f w) r = heap w r"
  by (auto simp: close_stream_def Let_def split: option.splits)

lemma close_stream_get:
  "get_stream f' (heap (close_stream r0 f w) r0) =
   (if f' = f then map_option after_close (get_stream f (heap w r0)) else get_stream f' (heap w r0))"
  by (cases f; cases f') (auto simp: close_stream_def after_close_def Let_def split: option.splits)

lemma close_stream_behaviour:
  "returncode (heap (close_stream r0 f w) r) = returncode (heap w r)"
  "terminate_raises (heap (close_stream r0 f w) r) = terminate_raises (heap w r)"
  "wait_result (heap (close_stream r0 f w) r) = wait_result (heap w r)"
  "kill_raises (heap (close_stream r0 f w) r) = kill_raises (heap w r)"
  by (cases f; auto simp: close_stream_def Let_def split: option.splits)+

lemma close_stream_calls_return:
  "calls_return (heap (close_stream r0 f w) r) = calls_return (heap w r)"
  by (simp add: calls_return_def close_stream_behaviour cong: sum.case_cong)

lemma close_stream_frame:
  "thread_executor (close_stream r0 f w) = thread_executor w"
  "all_tasks (close_stream r0 f w) = all_tasks w"
  "current_task (close_stream r0 f w) = current_task w"
  "process_tree (close_stream r0 f w) = process_tree w"
  "threads (close_stream r0 f w) = threads w"
  "markup_error (close_stream r0 f w) = markup_error w"
  "listing_rank (close_stream r0 f w) = listing_rank w"
  "set_rank (close_stream r0 f w) = set_rank w"
  by (auto simp: close_stream_def Let_def split: option.splits)

lemma close_streams_trace:
  "trace (close_streams r0 w) = trace w @ map (Close r0) (present (heap w r0))"
  by (simp add: close_streams_def present_def close_stream_trace close_stream_get)

lemma close_streams_heap_other:
  "r \<noteq> r0 \<Longrightarrow> heap (close_streams r0 w) r = heap w r"
  by (simp add: close_streams_def close_stream_heap_other)



lemma close_streams_calls_return:
  "calls_return (heap (close_streams r0 w) r) = calls_return (heap w r)"
  by (simp add: close_streams_def close_stream_calls_return)

lemma close_streams_signals:
  "filter (signals r) (trace (close_streams r0 w)) = filter (signals r) (trace w)"
  by (simp add: close_streams_trace filter_empty_conv)

lemma close_streams_closes:
  "filter (closes r) (trace (close_streams r0 w)) =
   filter (closes r) (trace w) @ (if r = r0 then map (Close r0) (present (heap w r0)) else [])"
  by (auto simp add: close_streams_trace filter_empty_conv filter_id_conv)

subsection \<open>The drain loop\<close>

lemma drain_step:
  "running_subprocesses w = r # rest \<Longrightarrow>
   drain_registry w =
     (case stop_process r (w\<lparr>running_subprocesses := rest\<rparr>) of
        Returns u w1 \<Rightarrow> drain_registry (close_streams r w1)
      | Raises e w1 \<Rightarrow> Raises e w1
      | Blocks w1 \<Rightarrow> Blocks w1)"
  by (subst drain_registry.simps) simp

lemma drain_empty: "running_subprocesses w = [] \<Longrightarrow> drain_registry w = Returns () w"
  by (subst drain_registry.simps) simp

lemma drain_registry_empty:
  "returns (drain_registry w) \<Longrightarrow> running_subprocesses (world_of (drain_registry w)) = []"
proof (induction w rule: drain_registry.induct)
  case (1 w)
  show ?case
  proof (cases "running_subprocesses w")
    case Nil
    then show ?thesis by (simp add: drain_empty)
  next
    case (Cons r rest)
    with "1.prems" "1.IH" show ?thesis
      by (auto simp: drain_step [OF Cons] split: result.splits)
  qed
qed

lemma drain_not_blocks: "\<not> blocks (drain_registry w)"
proof (induction w rule: drain_registry.induct)
  case (1 w)
  show ?case
  proof (cases "running_subprocesses w")
    case Nil
    then show ?thesis by (simp add: drain_empty)
  next
    case (Cons r rest)
    with "1.IH" stop_process_not_blocks [of r "w\<lparr>running_subprocesses := rest\<rparr>"] show ?thesis
      by (auto simp: drain_step [OF Cons] split: result.splits)
  qed
qed


lemma drain_cases:
  assumes reg: "running_subprocesses w = r0 # rest" and ret: "returns (drain_registry w)"
  obtains u w1 where "stop_process r0 (w\<lparr>running_subprocesses := rest\<rparr>) = Returns u w1"
    and "drain_registry w = drain_registry (close_streams r0 w1)"
    and "running_subprocesses (close_streams r0 w1) = rest"
proof (cases "stop_process r0 (w\<lparr>running_subprocesses := rest\<rparr>)")
  case (Returns u w1)
  moreover from Returns have "drain_registry w = drain_registry (close_streams r0 w1)"
    by (simp add: drain_step [OF reg])
  moreover from Returns have "running_subprocesses (close_streams r0 w1) = rest"
    by (simp add: registry_stop_process)
  ultimately show ?thesis by (rule that)
next
  case (Raises e w1)
  with ret show ?thesis by (simp add: drain_step [OF reg])
next
  case (Blocks w1)
  with ret show ?thesis by (simp add: drain_step [OF reg])
qed

lemma drain_raises_step:
  "running_subprocesses w = r # rest \<Longrightarrow>
   stop_process r (w\<lparr>running_subprocesses := rest\<rparr>) = Raises e w1 \<Longrightarrow>
   drain_registry w = Raises e w1"
  by (simp add: drain_step)

lemma takeWhile_other:
  "r0 \<notin> set rest \<Longrightarrow> (\<And>r'. r' \<noteq> r0 \<Longrightarrow> f r' = g r') \<Longrightarrow>
   (\<forall>r'\<in>set (takeWhile P rest). f r') = (\<forall>r'\<in>set (takeWhile P rest). g r')"
  by (metis set_takeWhileD)

lemma drain_signals:
  "distinct (running_subprocesses w) \<Longrightarrow>
   filter (signals r) (trace (world_of (drain_registry w))) =
   filter (signals r) (trace w) @
     (if r \<in> set (running_subprocesses w) \<and>
         (\<forall>r'\<in>set (takeWhile (\<lambda>x. x \<noteq> r) (running_subprocesses w)). calls_return (heap w r'))
      then protocol r (heap w r) else [])"
proof (induction w rule: drain_registry.induct)
  case (1 w)
  show ?case
  proof (cases "running_subprocesses w")
    case Nil
    then show ?thesis by (simp add: drain_empty)
  next
    case (Cons r0 rest)
    let ?w0 = "w\<lparr>running_subprocesses := rest\<rparr>"
    from "1.prems" Cons have d: "distinct rest" "r0 \<notin> set rest" by simp_all
    have sp: "filter (signals r) (trace (world_of (stop_process r0 ?w0))) =
        filter (signals r) (trace w) @ (if r = r0 then protocol r (heap w r) else [])"
      using stop_process_signals [of r r0 ?w0] by simp
    have ri: "returns (stop_process r0 ?w0) = calls_return (heap w r0)"
      by (simp add: stop_process_returns_iff)
    show ?thesis
    proof (cases "stop_process r0 ?w0")
      case (Returns u w1)
      let ?w2 = "close_streams r0 w1"
      have w1: "w1 = world_of (stop_process r0 ?w0)" by (simp add: Returns)
      from Returns ri have ok: "calls_return (heap w r0)" by simp
      have dr: "drain_registry w = drain_registry ?w2"
        by (simp add: drain_step [OF Cons] Returns)
      have rg: "running_subprocesses ?w2 = rest"
        using Returns by (simp add: registry_stop_process)
      have hp: "heap ?w2 r' = heap w r'" if "r' \<noteq> r0" for r'
        using stop_process_heap_other [of r' r0 ?w0] that
        by (simp add: close_streams_heap_other w1)
      have tw: "(\<forall>r'\<in>set (takeWhile (\<lambda>x. x \<noteq> r) rest). calls_return (heap ?w2 r')) =
          (\<forall>r'\<in>set (takeWhile (\<lambda>x. x \<noteq> r) rest). calls_return (heap w r'))"
        by (rule takeWhile_other [OF d(2)]) (simp add: hp)
      have ih: "filter (signals r) (trace (world_of (drain_registry ?w2))) =
          filter (signals r) (trace ?w2) @
            (if r \<in> set rest \<and>
                (\<forall>r'\<in>set (takeWhile (\<lambda>x. x \<noteq> r) rest). calls_return (heap w r'))
             then protocol r (heap ?w2 r) else [])"
        using "1.IH" [OF Cons Returns] d(1) rg tw by simp
      have tr: "filter (signals r) (trace ?w2) =
          filter (signals r) (trace w) @ (if r = r0 then protocol r (heap w r) else [])"
        using sp by (simp add: close_streams_signals w1)
      show ?thesis
        using d(2) ok hp [of r] by (auto simp: dr ih tr Cons)
    next
      case (Raises e w1)
      with ri have nok: "\<not> calls_return (heap w r0)" by auto
      have dr: "drain_registry w = Raises e w1"
        by (rule drain_raises_step [OF Cons Raises])
      from sp Raises have tr: "filter (signals r) (trace w1) =
          filter (signals r) (trace w) @ (if r = r0 then protocol r (heap w r) else [])"
        by simp
      show ?thesis
        using nok by (auto simp: dr tr Cons)
    next
      case (Blocks w1)
      with stop_process_not_blocks [of r0 ?w0] show ?thesis by simp
    qed
  qed
qed

lemma drain_closes:
  "distinct (running_subprocesses w) \<Longrightarrow>
   filter (closes r) (trace (world_of (drain_registry w))) =
   filter (closes r) (trace w) @
     (if r \<in> set (running_subprocesses w) \<and> calls_return (heap w r) \<and>
         (\<forall>r'\<in>set (takeWhile (\<lambda>x. x \<noteq> r) (running_subprocesses w)). calls_return (heap w r'))
      then map (Close r) (present (heap w r)) else [])"
proof (induction w rule: drain_registry.induct)
  case (1 w)
  show ?case
  proof (cases "running_subprocesses w")
    case Nil
    then show ?thesis by (simp add: drain_empty)
  next
    case (Cons r0 rest)
    let ?w0 = "w\<lparr>running_subprocesses := rest\<rparr>"
    from "1.prems" Cons have d: "distinct rest" "r0 \<notin> set rest" by simp_all
    have sp: "filter (closes r) (trace (world_of (stop_process r0 ?w0))) = filter (closes r) (trace w)"
      using stop_process_closes [of r r0 ?w0] by simp
    have ri: "returns (stop_process r0 ?w0) = calls_return (heap w r0)"
      by (simp add: stop_process_returns_iff)
    show ?thesis
    proof (cases "stop_process r0 ?w0")
      case (Returns u w1)
      let ?w2 = "close_streams r0 w1"
      have w1: "w1 = world_of (stop_process r0 ?w0)" by (simp add: Returns)
      from Returns ri have ok: "calls_return (heap w r0)" by simp
      have dr: "drain_registry w = drain_registry ?w2"
        by (simp add: drain_step [OF Cons] Returns)
      have rg: "running_subprocesses ?w2 = rest"
        using Returns by (simp add: registry_stop_process)
      have hp: "heap ?w2 r' = heap w r'" if "r' \<noteq> r0" for r'
        using stop_process_heap_other [of r' r0 ?w0] that
        by (simp add: close_streams_heap_other w1)
      have tw: "(\<forall>r'\<in>set (takeWhile (\<lambda>x. x \<noteq> r) rest). calls_return (heap ?w2 r')) =
          (\<forall>r'\<in>set (takeWhile (\<lambda>x. x \<noteq> r) rest). calls_return (heap w r'))"
        by (rule takeWhile_other [OF d(2)]) (simp add: hp)
      have ih: "filter (closes r) (trace (world_of (drain_registry ?w2))) =
          filter (closes r) (trace ?w2) @
            (if r \<in> set rest \<and> calls_return (heap ?w2 r) \<and>
                (\<forall>r'\<in>set (takeWhile (\<lambda>x. x \<noteq> r) rest). calls_return (heap w r'))
             then map (Close r) (present (heap ?w2 r)) else [])"
        using "1.IH" [OF Cons Returns] d(1) rg tw by simp
      have pr: "present (heap w1 r0) = present (heap w r0)"
        using stop_process_streams [of _ r0 ?w0 r0] by (simp add: present_def w1)
      have tr: "filter (closes r) (trace ?w2) =
          filter (closes r) (trace w) @ (if r = r0 then map (Close r) (present (heap w r)) else [])"
        using sp by (simp add: close_streams_closes w1 [symmetric] pr)
      show ?thesis
        using d(2) ok hp [of r] by (auto simp: dr ih tr Cons)
    next
      case (Raises e w1)
      with ri have nok: "\<not> calls_return (heap w r0)" by auto
      have dr: "drain_registry w = Raises e w1"
        by (rule drain_raises_step [OF Cons Raises])
      from sp Raises have tr: "filter (closes r) (trace w1) = filter (closes r) (trace w)"
        by simp
      show ?thesis
        using nok by (auto simp: dr tr Cons)
    next
      case (Blocks w1)
      with stop_process_not_blocks [of r0 ?w0] show ?thesis by simp
    qed
  qed
qed

lemma drain_raised:
  "distinct (running_subprocesses w) \<Longrightarrow> \<not> procs_ok w \<Longrightarrow>
   \<exists>r\<in>set (running_subprocesses w).
      call_failure (heap w r) \<noteq> None \<and> raised (drain_registry w) = call_failure (heap w r) \<and>
      signals r (last (trace (world_of (drain_registry w))))"
proof (induction w rule: drain_registry.induct)
  case (1 w)
  show ?case
  proof (cases "running_subprocesses w")
    case Nil
    with "1.prems" show ?thesis by (simp add: procs_ok_def)
  next
    case (Cons r0 rest)
    let ?w0 = "w\<lparr>running_subprocesses := rest\<rparr>"
    from "1.prems" Cons have d: "distinct rest" "r0 \<notin> set rest" by simp_all
    have ri: "returns (stop_process r0 ?w0) = calls_return (heap w r0)"
      by (simp add: stop_process_returns_iff)
    have ra: "raised (stop_process r0 ?w0) = call_failure (heap w r0)"
      by (simp add: stop_process_raised)
    show ?thesis
    proof (cases "stop_process r0 ?w0")
      case (Returns u w1)
      let ?w2 = "close_streams r0 w1"
      have w1: "w1 = world_of (stop_process r0 ?w0)" by (simp add: Returns)
      from Returns ri have ok: "calls_return (heap w r0)" by simp
      have dr: "drain_registry w = drain_registry ?w2"
        by (simp add: drain_step [OF Cons] Returns)
      have rg: "running_subprocesses ?w2 = rest"
        using Returns by (simp add: registry_stop_process)
      have hp: "heap ?w2 r' = heap w r'" if "r' \<noteq> r0" for r'
        using stop_process_heap_other [of r' r0 ?w0] that
        by (simp add: close_streams_heap_other w1)
      from "1.prems"(2) ok Cons have "\<not> list_all (\<lambda>r. calls_return (heap w r)) rest"
        by (simp add: procs_ok_def)
      moreover have "list_all (\<lambda>r. calls_return (heap ?w2 r)) rest =
          list_all (\<lambda>r. calls_return (heap w r)) rest"
      proof -
        have "calls_return (heap ?w2 r) = calls_return (heap w r)" if "r \<in> set rest" for r
        proof -
          from that d(2) have "r \<noteq> r0" by blast
          then show ?thesis by (simp add: hp)
        qed
        then show ?thesis by (auto simp: list_all_iff)
      qed
      moreover from Returns have "running_subprocesses w1 = rest"
        by (simp add: registry_stop_process)
      ultimately have "\<not> procs_ok ?w2" by (simp add: procs_ok_def)
      from "1.IH" [OF Cons Returns _ this] d(1) rg
      obtain r where "r \<in> set rest" "call_failure (heap ?w2 r) \<noteq> None"
        "raised (drain_registry ?w2) = call_failure (heap ?w2 r)"
        "signals r (last (trace (world_of (drain_registry ?w2))))"
        by auto
      moreover from this(1) d(2) have "r \<noteq> r0" by auto
      ultimately show ?thesis
        using hp [of r] by (auto simp: dr Cons)
    next
      case (Raises e w1)
      from Raises ra have "call_failure (heap w r0) = Some e" by simp
      moreover have "signals r0 (last (trace w1))"
        using stop_process_last [of r0 ?w0] Raises by simp
      moreover have "drain_registry w = Raises e w1"
        by (rule drain_raises_step [OF Cons Raises])
      ultimately show ?thesis by (simp add: Cons)
    next
      case (Blocks w1)
      with stop_process_not_blocks [of r0 ?w0] show ?thesis by simp
    qed
  qed
qed



subsection \<open>Growth of the trace, globals left alone\<close>

lemma grows_refl [simp]: "grows K w w"
  by (simp add: grows_def)

lemma grows_trans: "grows K w w' \<Longrightarrow> grows K w' w'' \<Longrightarrow> grows K w w''"
  by (auto simp: grows_def)

lemma grows_emit: "K e \<Longrightarrow> grows K w (emit e w)"
  by (simp add: grows_def)

lemma grows_emit_trans: "K e \<Longrightarrow> grows K (emit e w) w' \<Longrightarrow> grows K w w'"
  by (auto simp: grows_def)

lemma grows_mono: "grows K w w' \<Longrightarrow> (\<And>e. K e \<Longrightarrow> K' e) \<Longrightarrow> grows K' w w'"
  by (auto simp: grows_def list_all_iff)

lemma grows_emitted: "grows K w w' \<Longrightarrow> trace w' = trace w @ emitted w w' \<and> list_all K (emitted w w')"
  by (auto simp: grows_def emitted_def)

lemma grows_filter:
  "grows K w w' \<Longrightarrow> (\<And>e. K e \<Longrightarrow> \<not> P e) \<Longrightarrow> filter P (trace w') = filter P (trace w)"
  by (auto simp: grows_def list_all_iff filter_empty_conv)

lemma unchanged_refl [simp]: "unchanged w w"
  by (simp add: unchanged_def)

lemma unchanged_trans: "unchanged w w' \<Longrightarrow> unchanged w' w'' \<Longrightarrow> unchanged w w''"
  by (simp add: unchanged_def)

lemma unchanged_emit [simp]: "unchanged w (emit e w)"
  by (simp add: unchanged_def)

lemma unchanged_emit_trans: "unchanged (emit e w) w' \<Longrightarrow> unchanged w w'"
  by (simp add: unchanged_def)

lemma routine_simps [simp]:
  "routine (Print msg)" "\<not> routine (Shutdown x wait)" "routine (Terminate r)"
  "routine (WaitFor r d) = (d = 3)" "routine (Kill r)" "routine (Close r f)"
  "routine (Sleep d) = (d = 1 / 10)" "routine (Cancel t)" "routine (Gather ts)"
  "routine (PsTerminate p)" "routine (PsWaitProcs ps d) = (d = 3)" "routine (PsKill p)"
  by (simp_all add: routine_def)

lemma grows_filter_emitted:
  "grows K w w' \<Longrightarrow> filter P (trace w') = filter P (trace w) @ filter P (emitted w w')"
  by (auto simp: grows_def emitted_def)

lemma grows_last:
  "grows K w w' \<Longrightarrow> trace w' \<noteq> trace w \<Longrightarrow> last (emitted w w') = last (trace w')"
  by (auto simp: grows_def emitted_def)

subsection \<open>Printing spliced text\<close>

lemma console_print_text_unchanged: "unchanged w (world_of (console_print_text msg w))"
  by (simp add: console_print_text_def unchanged_def split: option.splits)

lemma console_print_text_returns:
  "returns (console_print_text msg w) \<longleftrightarrow> markup_error w msg = None"
  by (simp add: console_print_text_def split: option.splits)

lemma console_print_text_not_blocks: "\<not> blocks (console_print_text msg w)"
  by (simp add: console_print_text_def split: option.splits)

lemma console_print_text_Returns:
  "console_print_text msg w = Returns u w1 \<Longrightarrow> w1 = emit (Print msg) w \<and> markup_error w msg = None"
  by (simp add: console_print_text_def split: option.splits)

lemma console_print_text_Raises:
  "console_print_text msg w = Raises e w1 \<Longrightarrow> w1 = w \<and> markup_error w msg = Some e"
  by (simp add: console_print_text_def split: option.splits)

subsection \<open>Tasks\<close>

lemma reported_iff: "reported r \<longleftrightarrow> isinstance_Exception r \<and> \<not> isinstance_CancelledError r"
  by (cases r) simp_all

lemma triage_Cons:
  "triage (r # rs) w =
     (if reported r
      then (case console_print_text (error_line r) w of
              Returns u w1 \<Rightarrow> triage rs w1
            | Raises e w1 \<Rightarrow> Raises e w1
            | Blocks w1 \<Rightarrow> Blocks w1)
      else triage rs w)"
  by (simp add: reported_iff error_line_def)

declare triage.simps(2) [simp del]

lemma triage_unchanged: "unchanged w (world_of (triage rs w))"
proof (induction rs arbitrary: w)
  case Nil
  show ?case by simp
next
  case (Cons r rs)
  show ?case
  proof (cases "reported r")
    case False
    with Cons.IH show ?thesis by (simp add: triage_Cons)
  next
    case True
    show ?thesis
    proof (cases "console_print_text (error_line r) w")
      case (Returns u w1)
      with Cons.IH [of w1] console_print_text_unchanged [of w "error_line r"] True show ?thesis
        by (auto simp: triage_Cons intro: unchanged_trans)
    next
      case (Raises e w1)
      with console_print_text_unchanged [of w "error_line r"] True show ?thesis
        by (simp add: triage_Cons)
    next
      case (Blocks w1)
      with console_print_text_not_blocks [of "error_line r" w] show ?thesis by simp
    qed
  qed
qed

lemma triage_returns:
  "returns (triage rs w) \<longleftrightarrow> (\<forall>r\<in>set rs. reported r \<longrightarrow> markup_error w (error_line r) = None)"
proof (induction rs arbitrary: w)
  case Nil
  show ?case by simp
next
  case (Cons r rs)
  show ?case
  proof (cases "reported r")
    case False
    with Cons.IH show ?thesis by (simp add: triage_Cons)
  next
    case True
    show ?thesis
    proof (cases "console_print_text (error_line r) w")
      case (Returns u w1)
      from console_print_text_Returns [OF Returns] Cons.IH [of w1] True Returns show ?thesis
        by (simp add: triage_Cons)
    next
      case (Raises e w1)
      from console_print_text_Raises [OF Raises] True Raises show ?thesis
        by (simp add: triage_Cons)
    next
      case (Blocks w1)
      with console_print_text_not_blocks [of "error_line r" w] show ?thesis by simp
    qed
  qed
qed

lemma triage_not_blocks: "\<not> blocks (triage rs w)"
proof (induction rs arbitrary: w)
  case Nil
  show ?case by simp
next
  case (Cons r rs)
  show ?case
  proof (cases "reported r")
    case False
    with Cons.IH show ?thesis by (simp add: triage_Cons)
  next
    case True
    with Cons.IH console_print_text_not_blocks [of "error_line r" w] show ?thesis
      by (cases "console_print_text (error_line r) w") (simp_all add: triage_Cons)
  qed
qed

lemma triage_prefix:
  "\<exists>k. trace (world_of (triage rs w)) =
        trace w @ take k (map (\<lambda>r. Print (error_line r)) (filter reported rs))"
proof (induction rs arbitrary: w)
  case Nil
  show ?case by simp
next
  case (Cons r rs)
  show ?case
  proof (cases "reported r")
    case False
    with Cons.IH show ?thesis by (simp add: triage_Cons)
  next
    case True
    show ?thesis
    proof (cases "console_print_text (error_line r) w")
      case (Returns u w1)
      from console_print_text_Returns [OF Returns] have w1: "w1 = emit (Print (error_line r)) w"
        by simp
      from Cons.IH [of w1] obtain k where
        "trace (world_of (triage rs w1)) =
           trace w1 @ take k (map (\<lambda>r. Print (error_line r)) (filter reported rs))"
        by blast
      then have "trace (world_of (triage (r # rs) w)) =
          trace w @ take (Suc k) (map (\<lambda>r. Print (error_line r)) (filter reported (r # rs)))"
        using True Returns by (simp add: triage_Cons w1)
      then show ?thesis by blast
    next
      case (Raises e w1)
      from console_print_text_Raises [OF Raises] True Raises
      have "trace (world_of (triage (r # rs) w)) =
          trace w @ take 0 (map (\<lambda>r. Print (error_line r)) (filter reported (r # rs)))"
        by (simp add: triage_Cons)
      then show ?thesis by blast
    next
      case (Blocks w1)
      with console_print_text_not_blocks [of "error_line r" w] show ?thesis by simp
    qed
  qed
qed



lemma triage_grows: "grows routine w (world_of (triage rs w))"
proof -
  from triage_prefix [of rs w] obtain k where
    "trace (world_of (triage rs w)) =
       trace w @ take k (map (\<lambda>r. Print (error_line r)) (filter reported rs))"
    by blast
  moreover have "list_all routine (take k (map (\<lambda>r. Print (error_line r)) (filter reported rs)))"
    by (auto simp: list_all_iff dest!: in_set_takeD)
  ultimately show ?thesis by (auto simp: grows_def)
qed

lemma cancel_all_unchanged: "unchanged w (cancel_all ts w)"
  by (induction ts arbitrary: w) (simp_all add: unchanged_def)

lemma cancel_all_trace: "trace (cancel_all ts w) = trace w @ map (\<lambda>t. Cancel (task_id t)) ts"
  by (induction ts arbitrary: w) auto

lemma outcomes_None: "outcomes ts = None \<longleftrightarrow> (\<exists>t\<in>set ts. settles t = None)"
  by (induction ts) (auto split: option.splits)

lemma gather_unchanged: "unchanged w (world_of (gather ts w))"
  by (auto simp: gather_def Let_def split: option.splits)

lemma gather_trace: "trace (world_of (gather ts w)) = trace w @ [Gather (map task_id ts)]"
  by (auto simp: gather_def Let_def split: option.splits)

lemma gather_blocks: "blocks (gather ts w) \<longleftrightarrow> (\<exists>t\<in>set ts. settles t = None)"
  by (auto simp: gather_def Let_def outcomes_None [symmetric] split: option.splits)

lemma gather_returns: "returns (gather ts w) \<longleftrightarrow> (\<forall>t\<in>set ts. settles t \<noteq> None)"
  using outcomes_None [of ts] by (auto simp: gather_def Let_def split: option.splits)

lemma gather_raised: "raised (gather ts w) = None"
  by (auto simp: gather_def Let_def split: option.splits)

lemma cancel_tasks_unchanged: "unchanged w (world_of (cancel_tasks w))"
  using gather_unchanged cancel_all_unchanged
  by (simp add: cancel_tasks_def Let_def unchanged_def)

lemma cancel_tasks_trace:
  "trace (world_of (cancel_tasks w)) =
   trace w @
   [Print (''[yellow]Cancelling ''
      @ str_nat (length (filter (\<lambda>t. task_id t \<noteq> current_task w) (all_tasks w)))
      @ '' remaining tasks...[/yellow]'')] @
   map (\<lambda>t. Cancel (task_id t)) (filter (\<lambda>t. task_id t \<noteq> current_task w) (all_tasks w)) @
   [Sleep (1 / 10),
    Gather (map task_id (filter (\<lambda>t. task_id t \<noteq> current_task w) (all_tasks w)))]"
  by (simp add: cancel_tasks_def Let_def gather_trace cancel_all_trace)

lemma cancel_tasks_grows: "grows routine w (world_of (cancel_tasks w))"
  by (simp add: grows_def cancel_tasks_trace list_all_iff)

lemma cancel_tasks_blocks:
  "blocks (cancel_tasks w) \<longleftrightarrow>
   (\<exists>t\<in>set (all_tasks w). task_id t \<noteq> current_task w \<and> settles t = None)"
  by (auto simp: cancel_tasks_def Let_def gather_blocks)

lemma cancel_tasks_returns:
  "returns (cancel_tasks w) \<longleftrightarrow>
   (\<forall>t\<in>set (all_tasks w). task_id t \<noteq> current_task w \<longrightarrow> settles t \<noteq> None)"
  by (auto simp: cancel_tasks_def Let_def gather_returns)

lemma cancel_tasks_raised: "raised (cancel_tasks w) = None"
  by (simp add: cancel_tasks_def Let_def gather_raised)

lemma outcomes_set:
  "outcomes ts = Some rs \<Longrightarrow> set rs = {r. \<exists>t\<in>set ts. settles t = Some r}"
proof (induction ts arbitrary: rs)
  case Nil
  then show ?case by simp
next
  case (Cons t ts)
  then show ?case by (auto split: option.splits)
qed

lemma cancel_tasks_results:
  "cancel_tasks w = Returns rs w' \<Longrightarrow>
   set rs = {r. \<exists>t\<in>set (all_tasks w). task_id t \<noteq> current_task w \<and> settles t = Some r}"
  using outcomes_set [of "filter (\<lambda>t. task_id t \<noteq> current_task w) (all_tasks w)" rs]
  by (auto simp: cancel_tasks_def gather_def Let_def split: option.splits)

subsection \<open>Sequencing\<close>

lemma bind_unchanged:
  "unchanged w (world_of r) \<Longrightarrow> (\<And>x w'. r = Returns x w' \<Longrightarrow> unchanged w' (world_of (f x w')))
   \<Longrightarrow> unchanged w (world_of (bind r f))"
  by (cases r) (auto intro: unchanged_trans)

lemma bind_grows:
  "grows K w (world_of r) \<Longrightarrow> (\<And>x w'. r = Returns x w' \<Longrightarrow> grows K w' (world_of (f x w')))
   \<Longrightarrow> grows K w (world_of (bind r f))"
  by (cases r) (auto intro: grows_trans)

subsection \<open>The process reaper\<close>

lemma terminate_children_unchanged: "unchanged w (world_of (terminate_children cs w))"
  by (induction cs arbitrary: w) (simp_all add: unchanged_def Let_def split: option.splits)

lemma terminate_children_grows: "grows routine w (world_of (terminate_children cs w))"
proof (induction cs arbitrary: w)
  case Nil
  show ?case by simp
next
  case (Cons c cs)
  let ?w1 = "emit (Print (''[yellow]Terminating process '' @ str_nat (child_pid c) @ ''...[/yellow]'')) w"
  let ?w2 = "emit (PsTerminate (child_pid c)) ?w1"
  have "grows routine w ?w1" "grows routine ?w1 ?w2"
    by (simp_all add: grows_emit)
  then have g: "grows routine w ?w2" by (rule grows_trans)
  show ?case
  proof (cases "child_terminate_raises c")
    case None
    with grows_trans [OF g Cons.IH [of ?w2]] show ?thesis by (simp add: Let_def)
  next
    case (Some e)
    with g show ?thesis by (simp add: Let_def)
  qed
qed

lemma terminate_children_returns:
  "returns (terminate_children cs w) \<longleftrightarrow> (\<forall>c\<in>set cs. child_terminate_raises c = None)"
  by (induction cs arbitrary: w) (auto simp: Let_def split: option.splits)

lemma terminate_children_not_blocks: "\<not> blocks (terminate_children cs w)"
  by (induction cs arbitrary: w) (auto simp: Let_def split: option.splits)

lemma terminate_children_signals:
  "filter reaper_signal (trace (world_of (terminate_children cs w))) =
   filter reaper_signal (trace w) @
     map (\<lambda>c. PsTerminate (child_pid c)) (through_first (\<lambda>c. child_terminate_raises c \<noteq> None) cs)"
  by (induction cs arbitrary: w) (auto simp: Let_def split: option.splits)


lemma kill_children_unchanged: "unchanged w (world_of (kill_children cs w))"
  by (induction cs arbitrary: w) (simp_all add: unchanged_def Let_def split: option.splits)

lemma kill_children_grows: "grows routine w (world_of (kill_children cs w))"
proof (induction cs arbitrary: w)
  case Nil
  show ?case by simp
next
  case (Cons c cs)
  let ?w1 = "emit (Print (''[red]Force killing stubborn process: '' @ str_nat (child_pid c) @ ''[/red]'')) w"
  let ?w2 = "emit (PsKill (child_pid c)) ?w1"
  have "grows routine w ?w1" "grows routine ?w1 ?w2"
    by (simp_all add: grows_emit)
  then have g: "grows routine w ?w2" by (rule grows_trans)
  show ?case
  proof (cases "child_kill_raises c")
    case None
    with grows_trans [OF g Cons.IH [of ?w2]] show ?thesis by (simp add: Let_def)
  next
    case (Some e)
    with g show ?thesis by (simp add: Let_def)
  qed
qed

lemma kill_children_returns:
  "returns (kill_children cs w) \<longleftrightarrow> (\<forall>c\<in>set cs. child_kill_raises c = None)"
  by (induction cs arbitrary: w) (auto simp: Let_def split: option.splits)

lemma kill_children_not_blocks: "\<not> blocks (kill_children cs w)"
  by (induction cs arbitrary: w) (auto simp: Let_def split: option.splits)

lemma kill_children_signals:
  "filter reaper_signal (trace (world_of (kill_children cs w))) =
   filter reaper_signal (trace w) @
     map (\<lambda>c. PsKill (child_pid c)) (through_first (\<lambda>c. child_kill_raises c \<noteq> None) cs)"
  by (induction cs arbitrary: w) (auto simp: Let_def split: option.splits)


lemma through_first_none: "\<forall>x\<in>set xs. \<not> P x \<Longrightarrow> through_first P xs = xs"
  by (induction xs) simp_all

subsection \<open>The thread report\<close>

lemma drop_dead_threads_id [simp]: "drop_dead_threads ts w = w"
  by (induction ts arbitrary: w) simp_all

lemma report_threads_Cons:
  "report_threads (t # ts) w =
     (case console_print_text (thread_line t) w of
        Returns u w1 \<Rightarrow> report_threads ts w1
      | Raises e w1 \<Rightarrow> Raises e w1
      | Blocks w1 \<Rightarrow> Blocks w1)"
  by (simp add: thread_line_def)

declare report_threads.simps(2) [simp del]

lemma report_threads_unchanged: "unchanged w (world_of (report_threads ts w))"
proof (induction ts arbitrary: w)
  case Nil
  show ?case by simp
next
  case (Cons t ts)
  show ?case
  proof (cases "console_print_text (thread_line t) w")
    case (Returns u w1)
    with Cons.IH [of w1] console_print_text_unchanged [of w "thread_line t"] show ?thesis
      by (auto simp: report_threads_Cons intro: unchanged_trans)
  next
    case (Raises e w1)
    with console_print_text_unchanged [of w "thread_line t"] show ?thesis
      by (simp add: report_threads_Cons)
  next
    case (Blocks w1)
    with console_print_text_not_blocks [of "thread_line t" w] show ?thesis by simp
  qed
qed

lemma report_threads_returns:
  "returns (report_threads ts w) \<longleftrightarrow> (\<forall>t\<in>set ts. markup_error w (thread_line t) = None)"
proof (induction ts arbitrary: w)
  case Nil
  show ?case by simp
next
  case (Cons t ts)
  show ?case
  proof (cases "console_print_text (thread_line t) w")
    case (Returns u w1)
    from console_print_text_Returns [OF Returns] Cons.IH [of w1] Returns show ?thesis
      by (simp add: report_threads_Cons)
  next
    case (Raises e w1)
    from console_print_text_Raises [OF Raises] Raises show ?thesis
      by (simp add: report_threads_Cons)
  next
    case (Blocks w1)
    with console_print_text_not_blocks [of "thread_line t" w] show ?thesis by simp
  qed
qed

lemma report_threads_not_blocks: "\<not> blocks (report_threads ts w)"
proof (induction ts arbitrary: w)
  case Nil
  show ?case by simp
next
  case (Cons t ts)
  with console_print_text_not_blocks [of "thread_line t" w] show ?case
    by (cases "console_print_text (thread_line t) w") (simp_all add: report_threads_Cons)
qed

lemma report_threads_prints:
  "\<exists>msgs. trace (world_of (report_threads ts w)) = trace w @ map Print msgs"
proof (induction ts arbitrary: w)
  case Nil
  have "trace w = trace w @ map Print []" by simp
  then show ?case unfolding report_threads.simps world_of.simps by blast
next
  case (Cons t ts)
  show ?case
  proof (cases "console_print_text (thread_line t) w")
    case (Returns u w1)
    from console_print_text_Returns [OF Returns] have w1: "w1 = emit (Print (thread_line t)) w"
      by simp
    from Cons.IH [of w1] obtain msgs where
      "trace (world_of (report_threads ts w1)) = trace w1 @ map Print msgs"
      by blast
    then have "trace (world_of (report_threads (t # ts) w)) =
        trace w @ map Print (thread_line t # msgs)"
      using Returns by (simp add: report_threads_Cons w1)
    then show ?thesis by blast
  next
    case (Raises e w1)
    from console_print_text_Raises [OF Raises] Raises
    have "trace (world_of (report_threads (t # ts) w)) = trace w @ map Print []"
      by (simp add: report_threads_Cons)
    then show ?thesis by blast
  next
    case (Blocks w1)
    with console_print_text_not_blocks [of "thread_line t" w] show ?thesis by simp
  qed
qed

lemma thread_report_unfold:
  "thread_report w =
     bind (report_threads (threads w)
            (emit (Print (''[bold yellow]Remaining active threads:[/bold yellow] ''
               @ str_nat (length (threads w)))) w))
       (\<lambda>_ w3. Returns () (emit (Print ''[green]Thread cleanup completed.[/green]'') w3))"
  by (simp add: thread_report_def Let_def)

lemma thread_report_unchanged: "unchanged w (world_of (thread_report w))"
  unfolding thread_report_unfold
  by (rule unchanged_emit_trans, rule bind_unchanged [OF report_threads_unchanged]) simp

lemma thread_report_prints:
  "\<exists>msgs. trace (world_of (thread_report w)) = trace w @ map Print msgs"
proof -
  let ?w2 = "emit (Print (''[bold yellow]Remaining active threads:[/bold yellow] ''
               @ str_nat (length (threads w)))) w"
  from report_threads_prints [of "threads w" ?w2] obtain msgs where
    m: "trace (world_of (report_threads (threads w) ?w2)) = trace ?w2 @ map Print msgs"
    by blast
  show ?thesis
  proof (cases "report_threads (threads w) ?w2")
    case (Returns u w3)
    with m have "trace (world_of (thread_report w)) =
        trace w @ map Print ((''[bold yellow]Remaining active threads:[/bold yellow] ''
               @ str_nat (length (threads w))) # msgs @ [''[green]Thread cleanup completed.[/green]''])"
      unfolding thread_report_unfold by simp
    then show ?thesis by blast
  next
    case (Raises e w3)
    with m have "trace (world_of (thread_report w)) =
        trace w @ map Print ((''[bold yellow]Remaining active threads:[/bold yellow] ''
               @ str_nat (length (threads w))) # msgs)"
      unfolding thread_report_unfold by simp
    then show ?thesis by blast
  next
    case (Blocks w3)
    with report_threads_not_blocks [of "threads w" ?w2] show ?thesis by simp
  qed
qed

lemma thread_report_grows: "grows routine w (world_of (thread_report w))"
proof -
  from thread_report_prints [of w] obtain msgs where
    "trace (world_of (thread_report w)) = trace w @ map Print msgs" by blast
  then show ?thesis by (auto simp: grows_def list_all_iff)
qed

lemma thread_report_signals:
  "filter reaper_signal (trace (world_of (thread_report w))) = filter reaper_signal (trace w)"
proof -
  from thread_report_prints [of w] obtain msgs where
    "trace (world_of (thread_report w)) = trace w @ map Print msgs" by blast
  then show ?thesis by (simp add: filter_empty_conv)
qed

lemma thread_report_returns:
  "returns (thread_report w) \<longleftrightarrow> (\<forall>t\<in>set (threads w). markup_error w (thread_line t) = None)"
  unfolding thread_report_unfold
  using report_threads_returns [of "threads w" "emit (Print (''[bold yellow]Remaining active threads:[/bold yellow] ''
               @ str_nat (length (threads w)))) w"]
  by (cases "report_threads (threads w) (emit (Print (''[bold yellow]Remaining active threads:[/bold yellow] ''
               @ str_nat (length (threads w)))) w)") simp_all

lemma thread_report_not_blocks: "\<not> blocks (thread_report w)"
  unfolding thread_report_unfold
  using report_threads_not_blocks [of "threads w" "emit (Print (''[bold yellow]Remaining active threads:[/bold yellow] ''
               @ str_nat (length (threads w)))) w"]
  by (cases "report_threads (threads w) (emit (Print (''[bold yellow]Remaining active threads:[/bold yellow] ''
               @ str_nat (length (threads w)))) w)") simp_all

subsection \<open>\<open>kill_all_threads\<close> as a whole\<close>

declare children.simps [simp del]

lemma set_descendants: "set (descendants t) = set_ptree t"
  by (induction t) auto

lemma set_children_recursive: "set (children rank True ts) = (\<Union>t\<in>set ts. set_ptree t)"
  by (simp add: set_descendants children.simps)

lemma kill_all_threads_unfold:
  "kill_all_threads w =
     bind (terminate_children (children (listing_rank w) True (process_tree w))
            (emit (Print ''[yellow]Checking for remaining background threads...[/yellow]'') w))
       (\<lambda>_ w2.
         bind (kill_children
                (sort_key (set_rank w2) (remdups (filter (\<lambda>c. \<not> gone_in_window c)
                   (children (listing_rank w) True (process_tree w)))))
                (emit (PsWaitProcs (map child_pid (children (listing_rank w) True (process_tree w))) 3) w2))
           (\<lambda>_ w4. thread_report w4))"
  by (simp add: kill_all_threads_def wait_procs_def Let_def)

lemma kill_all_threads_unchanged: "unchanged w (world_of (kill_all_threads w))"
  unfolding kill_all_threads_unfold
proof (rule unchanged_emit_trans, rule bind_unchanged [OF terminate_children_unchanged])
  fix x w2
  show "unchanged w2 (world_of (bind (kill_children
      (sort_key (set_rank w2) (remdups (filter (\<lambda>c. \<not> gone_in_window c)
         (children (listing_rank w) True (process_tree w)))))
      (emit (PsWaitProcs (map child_pid (children (listing_rank w) True (process_tree w))) 3) w2))
      (\<lambda>_ w4. thread_report w4)))"
    by (rule unchanged_emit_trans, rule bind_unchanged [OF kill_children_unchanged])
       (simp add: thread_report_unchanged)
qed

lemma kill_all_threads_grows: "grows routine w (world_of (kill_all_threads w))"
proof -
  let ?cs = "children (listing_rank w) True (process_tree w)"
  let ?w1 = "emit (Print ''[yellow]Checking for remaining background threads...[/yellow]'') w"
  have tail: "grows routine w2 (world_of (bind (kill_children
      (sort_key (set_rank w2) (remdups (filter (\<lambda>c. \<not> gone_in_window c) ?cs)))
      (emit (PsWaitProcs (map child_pid ?cs) 3) w2)) (\<lambda>_ w4. thread_report w4)))" for w2
  proof (rule grows_emit_trans [of routine "PsWaitProcs (map child_pid ?cs) 3"])
    show "routine (PsWaitProcs (map child_pid ?cs) 3)" by simp
    show "grows routine (emit (PsWaitProcs (map child_pid ?cs) 3) w2)
        (world_of (bind (kill_children
          (sort_key (set_rank w2) (remdups (filter (\<lambda>c. \<not> gone_in_window c) ?cs)))
          (emit (PsWaitProcs (map child_pid ?cs) 3) w2))
          (\<lambda>_ w4. thread_report w4)))"
      by (rule bind_grows [OF kill_children_grows]) (simp add: thread_report_grows)
  qed
  have "grows routine ?w1 (world_of (kill_all_threads w))"
    unfolding kill_all_threads_unfold
    by (rule bind_grows [OF terminate_children_grows]) (rule tail)
  moreover have "grows routine w ?w1" by (simp add: grows_emit)
  ultimately show ?thesis by (rule grows_trans [rotated])
qed

text \<open>The three parts of the sweep, with the worlds between them.\<close>

lemma kill_all_threads_cases:
  fixes w
  defines "cs \<equiv> children (listing_rank w) True (process_tree w)"
  defines "alive \<equiv> sort_key (set_rank w) (remdups (filter (\<lambda>c. \<not> gone_in_window c) cs))"
  defines "w1 \<equiv> emit (Print ''[yellow]Checking for remaining background threads...[/yellow]'') w"
  obtains
    (terminate) "\<not> returns (terminate_children cs w1)"
      "kill_all_threads w = Raises (the (raised (terminate_children cs w1)))
         (world_of (terminate_children cs w1))"
      "raised (terminate_children cs w1) \<noteq> None"
  | (kill) w2 where "terminate_children cs w1 = Returns () w2"
      "\<not> returns (kill_children alive (emit (PsWaitProcs (map child_pid cs) 3) w2))"
      "kill_all_threads w =
         Raises (the (raised (kill_children alive (emit (PsWaitProcs (map child_pid cs) 3) w2))))
           (world_of (kill_children alive (emit (PsWaitProcs (map child_pid cs) 3) w2)))"
      "raised (kill_children alive (emit (PsWaitProcs (map child_pid cs) 3) w2)) \<noteq> None"
  | (report) w2 w4 where "terminate_children cs w1 = Returns () w2"
      "kill_children alive (emit (PsWaitProcs (map child_pid cs) 3) w2) = Returns () w4"
      "kill_all_threads w = thread_report w4" "unchanged w w4"
proof (cases "terminate_children cs w1")
  case (Raises e w2)
  then show ?thesis
    by (intro terminate) (simp_all add: kill_all_threads_unfold cs_def w1_def)
next
  case (Blocks w2)
  with terminate_children_not_blocks [of cs w1] show ?thesis by simp
next
  case t: (Returns u w2)
  have u2: "unchanged w w2"
    using terminate_children_unchanged [of w1 cs] t by (simp add: w1_def unchanged_def)
  then have sr: "set_rank w2 = set_rank w" by (simp add: unchanged_def)
  let ?w3 = "emit (PsWaitProcs (map child_pid cs) 3) w2"
  show ?thesis
  proof (cases "kill_children alive ?w3")
    case (Raises e w4)
    with t sr show ?thesis
      by (intro kill [of w2]) (simp_all add: kill_all_threads_unfold cs_def w1_def alive_def)
  next
    case (Blocks w4)
    with kill_children_not_blocks [of alive ?w3] show ?thesis by simp
  next
    case k: (Returns u' w4)
    have "unchanged w2 w4"
      using kill_children_unchanged [of ?w3 alive] k by (simp add: unchanged_def)
    with u2 have "unchanged w w4" by (rule unchanged_trans)
    with t k sr show ?thesis
      by (intro report [of w2 w4]) (simp_all add: kill_all_threads_unfold cs_def w1_def alive_def)
  qed
qed

lemma kill_all_threads_returns:
  "returns (kill_all_threads w) \<longleftrightarrow>
   (\<forall>c\<in>set (children (listing_rank w) True (process_tree w)).
      child_terminate_raises c = None \<and> (\<not> gone_in_window c \<longrightarrow> child_kill_raises c = None)) \<and>
   (\<forall>t\<in>set (threads w). markup_error w (thread_line t) = None)"
proof (cases w rule: kill_all_threads_cases)
  case terminate
  then show ?thesis by (auto simp: terminate_children_returns)
next
  case (kill w2)
  from kill(1) have "returns (terminate_children (children (listing_rank w) True (process_tree w))
      (emit (Print ''[yellow]Checking for remaining background threads...[/yellow]'') w))"
    by simp
  with kill(2,3) show ?thesis
    by (auto simp: terminate_children_returns kill_children_returns)
next
  case (report w2 w4)
  from report(1) have "returns (terminate_children (children (listing_rank w) True (process_tree w))
      (emit (Print ''[yellow]Checking for remaining background threads...[/yellow]'') w))"
    by simp
  moreover from report(2) have "returns (kill_children
      (sort_key (set_rank w) (remdups (filter (\<lambda>c. \<not> gone_in_window c)
        (children (listing_rank w) True (process_tree w)))))
      (emit (PsWaitProcs (map child_pid (children (listing_rank w) True (process_tree w))) 3) w2))"
    by simp
  ultimately show ?thesis
    using report(3,4)
    by (auto simp: terminate_children_returns kill_children_returns thread_report_returns
        unchanged_def)
qed

lemma kill_all_threads_not_blocks: "\<not> blocks (kill_all_threads w)"
proof (cases w rule: kill_all_threads_cases)
  case terminate
  then show ?thesis by simp
next
  case (kill w2)
  then show ?thesis by simp
next
  case (report w2 w4)
  then show ?thesis by (simp add: thread_report_not_blocks)
qed

lemma kill_all_threads_signals:
  "filter reaper_signal (trace (world_of (kill_all_threads w))) =
     filter reaper_signal (trace w) @
     (if \<forall>c\<in>set (children (listing_rank w) True (process_tree w)). child_terminate_raises c = None
      then map (\<lambda>c. PsTerminate (child_pid c)) (children (listing_rank w) True (process_tree w)) @
           [PsWaitProcs (map child_pid (children (listing_rank w) True (process_tree w))) 3] @
           map (\<lambda>c. PsKill (child_pid c))
             (through_first (\<lambda>c. child_kill_raises c \<noteq> None)
               (sort_key (set_rank w) (remdups (filter (\<lambda>c. \<not> gone_in_window c)
                 (children (listing_rank w) True (process_tree w))))))
      else map (\<lambda>c. PsTerminate (child_pid c))
             (through_first (\<lambda>c. child_terminate_raises c \<noteq> None)
               (children (listing_rank w) True (process_tree w))))"
proof -
  let ?cs = "children (listing_rank w) True (process_tree w)"
  let ?w1 = "emit (Print ''[yellow]Checking for remaining background threads...[/yellow]'') w"
  let ?alive = "sort_key (set_rank w) (remdups (filter (\<lambda>c. \<not> gone_in_window c) ?cs))"
  have ts: "filter reaper_signal (trace (world_of (terminate_children ?cs ?w1))) =
      filter reaper_signal (trace w) @
        map (\<lambda>c. PsTerminate (child_pid c)) (through_first (\<lambda>c. child_terminate_raises c \<noteq> None) ?cs)"
    by (simp add: terminate_children_signals)
  have tr: "returns (terminate_children ?cs ?w1) = (\<forall>c\<in>set ?cs. child_terminate_raises c = None)"
    by (rule terminate_children_returns)
  show ?thesis
  proof (cases w rule: kill_all_threads_cases)
    case terminate
    from terminate(1) tr have "\<not> (\<forall>c\<in>set ?cs. child_terminate_raises c = None)"
      by blast
    with ts terminate(2) show ?thesis by (auto simp del: not_None_eq)
  next
    case (kill w2)
    let ?w3 = "emit (PsWaitProcs (map child_pid ?cs) 3) w2"
    from kill(1) tr have ok: "\<forall>c\<in>set ?cs. child_terminate_raises c = None" by simp
    with ts kill(1) have "filter reaper_signal (trace w2) =
        filter reaper_signal (trace w) @ map (\<lambda>c. PsTerminate (child_pid c)) ?cs"
      by (simp add: through_first_none)
    moreover have "filter reaper_signal (trace (world_of (kill_children ?alive ?w3))) =
        filter reaper_signal (trace ?w3) @
          map (\<lambda>c. PsKill (child_pid c)) (through_first (\<lambda>c. child_kill_raises c \<noteq> None) ?alive)"
      by (rule kill_children_signals)
    ultimately show ?thesis using kill(3) ok by simp
  next
    case (report w2 w4)
    let ?w3 = "emit (PsWaitProcs (map child_pid ?cs) 3) w2"
    from report(1) tr have ok: "\<forall>c\<in>set ?cs. child_terminate_raises c = None" by simp
    with ts report(1) have "filter reaper_signal (trace w2) =
        filter reaper_signal (trace w) @ map (\<lambda>c. PsTerminate (child_pid c)) ?cs"
      by (simp add: through_first_none)
    moreover have "filter reaper_signal (trace (world_of (kill_children ?alive ?w3))) =
        filter reaper_signal (trace ?w3) @
          map (\<lambda>c. PsKill (child_pid c)) (through_first (\<lambda>c. child_kill_raises c \<noteq> None) ?alive)"
      by (rule kill_children_signals)
    ultimately show ?thesis using report(2,3) ok by (simp add: thread_report_signals)
  qed
qed


subsection \<open>The pool stage\<close>

lemma pool_frame:
  "running_subprocesses (world_of (pool_shutdown w)) = running_subprocesses w"
  "heap (world_of (pool_shutdown w)) = heap w"
  "all_tasks (world_of (pool_shutdown w)) = all_tasks w"
  "current_task (world_of (pool_shutdown w)) = current_task w"
  "process_tree (world_of (pool_shutdown w)) = process_tree w"
  "threads (world_of (pool_shutdown w)) = threads w"
  "markup_error (world_of (pool_shutdown w)) = markup_error w"
  "listing_rank (world_of (pool_shutdown w)) = listing_rank w"
  "set_rank (world_of (pool_shutdown w)) = set_rank w"
  by (auto simp: pool_shutdown_def Let_def split: option.splits reply.splits)


lemma pool_returns:
  "returns (pool_shutdown w) \<longleftrightarrow>
   (case thread_executor w of None \<Rightarrow> True | Some ex \<Rightarrow> shutdown_reply ex = Done)"
  by (auto simp: pool_shutdown_def Let_def split: option.splits reply.splits)

lemma pool_blocks:
  "blocks (pool_shutdown w) \<longleftrightarrow>
   (case thread_executor w of None \<Rightarrow> False | Some ex \<Rightarrow> shutdown_reply ex = Never)"
  by (auto simp: pool_shutdown_def Let_def split: option.splits reply.splits)

lemma pool_cleared:
  "returns (pool_shutdown w) \<Longrightarrow> thread_executor (world_of (pool_shutdown w)) = None"
  by (auto simp: pool_shutdown_def Let_def split: option.splits reply.splits)

lemma pool_shutdowns:
  "filter is_shutdown (trace (world_of (pool_shutdown w))) =
   filter is_shutdown (trace w) @
     (case thread_executor w of None \<Rightarrow> [] | Some ex \<Rightarrow> [Shutdown (executor_id ex) True])"
  by (auto simp: pool_shutdown_def Let_def split: option.splits reply.splits)

lemma pool_grows: "grows bounded w (world_of (pool_shutdown w))"
  by (auto simp: pool_shutdown_def Let_def grows_def split: option.splits reply.splits)

subsection \<open>The drain and the rest of the world\<close>

lemma stop_process_frame:
  "thread_executor (world_of (stop_process r w)) = thread_executor w"
  "all_tasks (world_of (stop_process r w)) = all_tasks w"
  "current_task (world_of (stop_process r w)) = current_task w"
  "process_tree (world_of (stop_process r w)) = process_tree w"
  "threads (world_of (stop_process r w)) = threads w"
  "markup_error (world_of (stop_process r w)) = markup_error w"
  "listing_rank (world_of (stop_process r w)) = listing_rank w"
  "set_rank (world_of (stop_process r w)) = set_rank w"
  by (auto simp: stop_process_def Let_def split: option.splits sum.splits)

lemma close_streams_frame:
  "thread_executor (close_streams r w) = thread_executor w"
  "all_tasks (close_streams r w) = all_tasks w"
  "current_task (close_streams r w) = current_task w"
  "process_tree (close_streams r w) = process_tree w"
  "threads (close_streams r w) = threads w"
  "markup_error (close_streams r w) = markup_error w"
  "listing_rank (close_streams r w) = listing_rank w"
  "set_rank (close_streams r w) = set_rank w"
  by (simp_all add: close_streams_def close_stream_frame)

lemma stop_process_grows: "grows routine w (world_of (stop_process r w))"
  by (auto simp: stop_process_def Let_def grows_def split: option.splits sum.splits)

lemma close_streams_grows: "grows routine w (close_streams r w)"
  by (simp add: grows_def close_streams_trace list_all_iff image_iff)

lemma drain_frame: "same_runtime w (world_of (drain_registry w))"
proof (induction w rule: drain_registry.induct)
  case (1 w)
  show ?case
  proof (cases "running_subprocesses w")
    case Nil
    then show ?thesis by (simp add: drain_empty same_runtime_def)
  next
    case (Cons r rest)
    let ?w0 = "w\<lparr>running_subprocesses := rest\<rparr>"
    have s: "same_runtime w (world_of (stop_process r ?w0))"
      by (simp add: same_runtime_def stop_process_frame)
    show ?thesis
    proof (cases "stop_process r ?w0")
      case (Returns u w1)
      with s "1.IH" [OF Cons Returns] show ?thesis
        by (simp add: drain_step [OF Cons] same_runtime_def close_streams_frame)
    next
      case (Raises e w1)
      with s show ?thesis by (simp add: drain_step [OF Cons])
    next
      case (Blocks w1)
      with s show ?thesis by (simp add: drain_step [OF Cons])
    qed
  qed
qed

lemma drain_grows: "grows routine w (world_of (drain_registry w))"
proof (induction w rule: drain_registry.induct)
  case (1 w)
  show ?case
  proof (cases "running_subprocesses w")
    case Nil
    then show ?thesis by (simp add: drain_empty)
  next
    case (Cons r rest)
    let ?w0 = "w\<lparr>running_subprocesses := rest\<rparr>"
    have "grows routine ?w0 (world_of (stop_process r ?w0))"
      by (rule stop_process_grows)
    then have s: "grows routine w (world_of (stop_process r ?w0))"
      by (simp add: grows_def)
    show ?thesis
    proof (cases "stop_process r ?w0")
      case (Returns u w1)
      from s Returns have "grows routine w w1" by simp
      then have "grows routine w (close_streams r w1)"
        by (rule grows_trans) (rule close_streams_grows)
      then have "grows routine w (world_of (drain_registry (close_streams r w1)))"
        by (rule grows_trans) (rule "1.IH" [OF Cons Returns])
      with Returns show ?thesis by (simp add: drain_step [OF Cons])
    next
      case (Raises e w1)
      with s show ?thesis by (simp add: drain_step [OF Cons])
    next
      case (Blocks w1)
      with s show ?thesis by (simp add: drain_step [OF Cons])
    qed
  qed
qed

lemma drain_returns_registry:
  "\<forall>r\<in>set (running_subprocesses w). calls_return (heap w r) \<Longrightarrow> returns (drain_registry w)"
proof (induction w rule: drain_registry.induct)
  case (1 w)
  show ?case
  proof (cases "running_subprocesses w")
    case Nil
    then show ?thesis by (simp add: drain_empty)
  next
    case (Cons r rest)
    let ?w0 = "w\<lparr>running_subprocesses := rest\<rparr>"
    from "1.prems" Cons have "calls_return (heap ?w0 r)" by simp
    then have "returns (stop_process r ?w0)" by (rule stop_process_returns)
    then obtain u w1 where st: "stop_process r ?w0 = Returns u w1"
      by (cases "stop_process r ?w0") simp_all
    have "\<forall>r'\<in>set (running_subprocesses (close_streams r w1)). calls_return (heap (close_streams r w1) r')"
    proof
      fix r'
      assume "r' \<in> set (running_subprocesses (close_streams r w1))"
      with st have "r' \<in> set rest" by (simp add: registry_stop_process)
      with "1.prems" Cons have "calls_return (heap ?w0 r')" by simp
      then have "calls_return (heap (world_of (stop_process r ?w0)) r')"
        by (rule stop_process_calls_return)
      then show "calls_return (heap (close_streams r w1) r')"
        by (simp add: st close_streams_calls_return)
    qed
    then have "returns (drain_registry (close_streams r w1))"
      by (rule "1.IH" [OF Cons st])
    then show ?thesis by (simp add: drain_step [OF Cons] st)
  qed
qed

lemma drain_returns_calls:
  "distinct (running_subprocesses w) \<Longrightarrow> returns (drain_registry w) \<Longrightarrow>
   r \<in> set (running_subprocesses w) \<Longrightarrow> calls_return (heap w r)"
proof (induction w rule: drain_registry.induct)
  case (1 w)
  show ?case
  proof (cases "running_subprocesses w")
    case Nil
    with "1.prems" show ?thesis by simp
  next
    case (Cons r0 rest)
    let ?w0 = "w\<lparr>running_subprocesses := rest\<rparr>"
    from Cons "1.prems"(2) obtain u w1 where st: "stop_process r0 ?w0 = Returns u w1"
      and dr: "drain_registry w = drain_registry (close_streams r0 w1)"
      and rg: "running_subprocesses (close_streams r0 w1) = rest"
      by (rule drain_cases)
    let ?w2 = "close_streams r0 w1"
    from "1.prems" Cons have d: "distinct rest" "r0 \<notin> set rest" by simp_all
    from "1.prems"(2) dr have ret2: "returns (drain_registry ?w2)" by simp
    have w1: "w1 = world_of (stop_process r0 ?w0)" by (simp add: st)
    show ?thesis
    proof (cases "r = r0")
      case True
      from st have "returns (stop_process r0 ?w0)" by simp
      then show ?thesis using True by (simp add: stop_process_returns_iff)
    next
      case False
      with "1.prems"(3) Cons have "r \<in> set rest" by simp
      then have "calls_return (heap ?w2 r)"
        using "1.IH" [OF Cons st] d(1) ret2 rg by simp
      moreover have "heap ?w2 r = heap w r"
        using stop_process_heap_other [of r r0 ?w0] False
        by (simp add: close_streams_heap_other w1)
      ultimately show ?thesis by simp
    qed
  qed
qed

lemma drain_returns_iff:
  "distinct (running_subprocesses w) \<Longrightarrow> returns (drain_registry w) \<longleftrightarrow> procs_ok w"
  using drain_returns_registry [of w] drain_returns_calls [of w]
  by (auto simp: procs_ok_def list_all_iff)

subsection \<open>The whole of cleanup\<close>

lemma cleanup_unfold:
  "cleanup w =
     bind (pool_shutdown (emit (Print ''[yellow]Cleaning up tasks before exiting...[/yellow]'') w))
       (\<lambda>_ w2. bind (drain_registry w2)
       (\<lambda>_ w3. bind (cancel_tasks (emit (Sleep (1 / 10)) w3))
       (\<lambda>results w4. bind (triage results w4)
       (\<lambda>_ w5. bind (kill_all_threads w5)
       (\<lambda>_ w6. Returns () (emit (Print ''[green]Cleanup completed. Exiting safely.[/green]'') w6))))))"
  by (simp add: cleanup_def Let_def)

lemma cleanup_returnsE:
  assumes "returns (cleanup w)"
  obtains w2 w3 rs w4 w5 w6 where
    "pool_shutdown (emit (Print ''[yellow]Cleaning up tasks before exiting...[/yellow]'') w) = Returns () w2"
    "drain_registry w2 = Returns () w3"
    "cancel_tasks (emit (Sleep (1 / 10)) w3) = Returns rs w4"
    "triage rs w4 = Returns () w5"
    "kill_all_threads w5 = Returns () w6"
    "cleanup w = Returns () (emit (Print ''[green]Cleanup completed. Exiting safely.[/green]'') w6)"
proof -
  let ?w1 = "emit (Print ''[yellow]Cleaning up tasks before exiting...[/yellow]'') w"
  from assms obtain u2 w2 where p: "pool_shutdown ?w1 = Returns u2 w2"
    unfolding cleanup_unfold by (cases "pool_shutdown ?w1") simp_all
  from assms p obtain u3 w3 where d: "drain_registry w2 = Returns u3 w3"
    unfolding cleanup_unfold by (cases "drain_registry w2") simp_all
  from assms p d obtain rs w4 where c: "cancel_tasks (emit (Sleep (1 / 10)) w3) = Returns rs w4"
    unfolding cleanup_unfold by (cases "cancel_tasks (emit (Sleep (1 / 10)) w3)") simp_all
  from assms p d c obtain u5 w5 where t: "triage rs w4 = Returns u5 w5"
    unfolding cleanup_unfold by (cases "triage rs w4") simp_all
  from assms p d c t obtain u6 w6 where k: "kill_all_threads w5 = Returns u6 w6"
    unfolding cleanup_unfold by (cases "kill_all_threads w5") simp_all
  have "cleanup w = Returns () (emit (Print ''[green]Cleanup completed. Exiting safely.[/green]'') w6)"
    unfolding cleanup_unfold by (simp add: p d c t k)
  with p d c t k show ?thesis by (auto intro: that)
qed

lemma cleanup_registry_empty:
  "returns (cleanup w) \<Longrightarrow> running_subprocesses (world_of (cleanup w)) = []"
proof -
  assume "returns (cleanup w)"
  then obtain w2 w3 rs w4 w5 w6 where
    d: "drain_registry w2 = Returns () w3"
    and c: "cancel_tasks (emit (Sleep (1 / 10)) w3) = Returns rs w4"
    and t: "triage rs w4 = Returns () w5"
    and k: "kill_all_threads w5 = Returns () w6"
    and r: "cleanup w = Returns () (emit (Print ''[green]Cleanup completed. Exiting safely.[/green]'') w6)"
    by (rule cleanup_returnsE)
  from d have "running_subprocesses w3 = []"
    using drain_registry_empty [of w2] by simp
  moreover from c have "unchanged (emit (Sleep (1 / 10)) w3) w4"
    using cancel_tasks_unchanged [of "emit (Sleep (1 / 10)) w3"] by simp
  moreover from t have "unchanged w4 w5"
    using triage_unchanged [of w4 rs] by simp
  moreover from k have "unchanged w5 w6"
    using kill_all_threads_unchanged [of w5] by simp
  ultimately show ?thesis by (simp add: r unchanged_def)
qed

lemma cleanup_executor:
  assumes "returns (cleanup w)"
  shows "thread_executor (world_of (cleanup w)) = None"
    and "filter is_shutdown (trace (world_of (cleanup w))) =
      filter is_shutdown (trace w) @
        (case thread_executor w of None \<Rightarrow> [] | Some ex \<Rightarrow> [Shutdown (executor_id ex) True])"
proof -
  let ?w1 = "emit (Print ''[yellow]Cleaning up tasks before exiting...[/yellow]'') w"
  from assms obtain w2 w3 rs w4 w5 w6 where
    p: "pool_shutdown ?w1 = Returns () w2"
    and d: "drain_registry w2 = Returns () w3"
    and c: "cancel_tasks (emit (Sleep (1 / 10)) w3) = Returns rs w4"
    and t: "triage rs w4 = Returns () w5"
    and k: "kill_all_threads w5 = Returns () w6"
    and r: "cleanup w = Returns () (emit (Print ''[green]Cleanup completed. Exiting safely.[/green]'') w6)"
    by (rule cleanup_returnsE)
  have no: "\<not> is_shutdown e" if "routine e" for e
    using that by (simp add: routine_def)
  from p have e2: "thread_executor w2 = None"
    using pool_cleared [of ?w1] by simp
  from d have e3: "thread_executor w3 = thread_executor w2"
    using drain_frame [of w2] by (simp add: same_runtime_def)
  from c have u4: "unchanged (emit (Sleep (1 / 10)) w3) w4"
    using cancel_tasks_unchanged [of "emit (Sleep (1 / 10)) w3"] by simp
  from t have u5: "unchanged w4 w5"
    using triage_unchanged [of w4 rs] by simp
  from k have u6: "unchanged w5 w6"
    using kill_all_threads_unchanged [of w5] by simp
  from e2 e3 u4 u5 u6 show "thread_executor (world_of (cleanup w)) = None"
    by (simp add: r unchanged_def)
  from p have t2: "filter is_shutdown (trace w2) = filter is_shutdown (trace w) @
      (case thread_executor w of None \<Rightarrow> [] | Some ex \<Rightarrow> [Shutdown (executor_id ex) True])"
    using pool_shutdowns [of ?w1] by simp
  from d have t3: "filter is_shutdown (trace w3) = filter is_shutdown (trace w2)"
    using grows_filter [OF drain_grows [of w2], of is_shutdown] no by simp
  from c have t4: "filter is_shutdown (trace w4) = filter is_shutdown (trace w3)"
    using grows_filter [OF cancel_tasks_grows [of "emit (Sleep (1 / 10)) w3"], of is_shutdown] no
    by simp
  from t have t5: "filter is_shutdown (trace w5) = filter is_shutdown (trace w4)"
    using grows_filter [OF triage_grows [of w4 rs], of is_shutdown] no by simp
  from k have t6: "filter is_shutdown (trace w6) = filter is_shutdown (trace w5)"
    using grows_filter [OF kill_all_threads_grows [of w5], of is_shutdown] no by simp
  from t2 t3 t4 t5 t6 show "filter is_shutdown (trace (world_of (cleanup w))) =
      filter is_shutdown (trace w) @
        (case thread_executor w of None \<Rightarrow> [] | Some ex \<Rightarrow> [Shutdown (executor_id ex) True])"
    by (simp add: r)
qed

lemma grows_routine_bounded: "grows routine w w' \<Longrightarrow> grows bounded w w'"
  by (erule grows_mono) (simp add: routine_def)

lemma cleanup_grows: "grows bounded w (world_of (cleanup w))"
proof -
  let ?w1 = "emit (Print ''[yellow]Cleaning up tasks before exiting...[/yellow]'') w"
  let ?fin = "\<lambda>(_::unit) w6. Returns () (emit (Print ''[green]Cleanup completed. Exiting safely.[/green]'') w6)"
  have sweep: "grows bounded w5 (world_of (bind (kill_all_threads w5) ?fin))" for w5
    by (rule bind_grows [OF grows_routine_bounded [OF kill_all_threads_grows]])
       (simp add: grows_emit)
  have tri: "grows bounded w4 (world_of (bind (triage rs w4)
      (\<lambda>_ w5. bind (kill_all_threads w5) ?fin)))" for rs w4
    by (rule bind_grows [OF grows_routine_bounded [OF triage_grows]]) (rule sweep)
  have tasks: "grows bounded w3 (world_of (bind (cancel_tasks (emit (Sleep (1 / 10)) w3))
      (\<lambda>results w4. bind (triage results w4) (\<lambda>_ w5. bind (kill_all_threads w5) ?fin))))"
    for w3
  proof (rule grows_emit_trans [of bounded "Sleep (1 / 10)"])
    show "bounded (Sleep (1 / 10))" by simp
    show "grows bounded (emit (Sleep (1 / 10)) w3)
      (world_of (bind (cancel_tasks (emit (Sleep (1 / 10)) w3))
      (\<lambda>results w4. bind (triage results w4) (\<lambda>_ w5. bind (kill_all_threads w5) ?fin))))"
      by (rule bind_grows [OF grows_routine_bounded [OF cancel_tasks_grows]]) (rule tri)
  qed
  have "grows bounded ?w1 (world_of (cleanup w))"
    unfolding cleanup_unfold
    by (rule bind_grows [OF pool_grows],
        rule bind_grows [OF grows_routine_bounded [OF drain_grows]], rule tasks)
  moreover have "grows bounded w ?w1" by (simp add: grows_emit)
  ultimately show ?thesis by (rule grows_trans [rotated])
qed


lemma reaper_and_threads_ok:
  assumes "process_tree w5 = process_tree w" "listing_rank w5 = listing_rank w"
    "threads w5 = threads w" "markup_error w5 = markup_error w"
  shows "returns (kill_all_threads w5) \<longleftrightarrow>
     reaper_ok w \<and> (\<forall>t\<in>set (threads w). markup_error w (thread_line t) = None)"
  by (simp add: kill_all_threads_returns reaper_ok_def list_all_iff assms)

lemma cleanup_outcome:
  assumes dist: "distinct (running_subprocesses w)"
  shows "(returns (cleanup w) \<longleftrightarrow>
      pool_ok w \<and> procs_ok w \<and> tasks_settle w \<and> console_ok w \<and> reaper_ok w) \<and>
    (blocks (cleanup w) \<longleftrightarrow> pool_never w \<or> (pool_ok w \<and> procs_ok w \<and> \<not> tasks_settle w))"
proof -
  let ?w1 = "emit (Print ''[yellow]Cleaning up tasks before exiting...[/yellow]'') w"
  let ?fin = "\<lambda>(_::unit) w6. Returns () (emit (Print ''[green]Cleanup completed. Exiting safely.[/green]'') w6)"
  have pr: "returns (pool_shutdown ?w1) = pool_ok w"
    by (simp add: pool_returns pool_ok_def)
  have pb: "blocks (pool_shutdown ?w1) = pool_never w"
    by (simp add: pool_blocks pool_never_def)
  show ?thesis
  proof (cases "pool_shutdown ?w1")
    case (Raises e w2)
    with pr pb show ?thesis
      unfolding cleanup_unfold by simp
  next
    case (Blocks w2)
    with pr pb show ?thesis
      unfolding cleanup_unfold by simp
  next
    case (Returns u2 w2)
    with pr pb have ok: "pool_ok w" "\<not> pool_never w" by simp_all
    from Returns have w2: "w2 = world_of (pool_shutdown ?w1)" by simp
    have f2: "running_subprocesses w2 = running_subprocesses w" "heap w2 = heap w"
      "all_tasks w2 = all_tasks w" "current_task w2 = current_task w"
      "process_tree w2 = process_tree w" "threads w2 = threads w"
      "markup_error w2 = markup_error w" "listing_rank w2 = listing_rank w"
      by (simp_all add: w2 pool_frame)
    from dist f2 have dr: "returns (drain_registry w2) = procs_ok w"
      by (simp add: drain_returns_iff procs_ok_def)
    show ?thesis
    proof (cases "drain_registry w2")
      case (Raises e w3)
      with dr ok Returns show ?thesis
        unfolding cleanup_unfold by simp
    next
      case (Blocks w3)
      with drain_not_blocks [of w2] show ?thesis
        by simp
    next
      case d: (Returns u3 w3)
      with dr have pk: "procs_ok w" by simp
      from d have "same_runtime w2 w3" using drain_frame [of w2] by simp
      with f2 have f3: "all_tasks w3 = all_tasks w" "current_task w3 = current_task w"
        "process_tree w3 = process_tree w" "threads w3 = threads w"
        "markup_error w3 = markup_error w" "listing_rank w3 = listing_rank w"
        by (simp_all add: same_runtime_def)
      let ?w3 = "emit (Sleep (1 / 10)) w3"
      have cr: "returns (cancel_tasks ?w3) = tasks_settle w"
        by (simp add: cancel_tasks_returns tasks_settle_def f3 list_all_iff)
      have cb: "blocks (cancel_tasks ?w3) = (\<not> tasks_settle w)"
        by (auto simp add: cancel_tasks_blocks tasks_settle_def f3 list_all_iff)
      show ?thesis
      proof (cases "cancel_tasks ?w3")
        case (Raises e w4)
        with cancel_tasks_raised [of ?w3] show ?thesis
          by simp
      next
        case (Blocks w4)
        with cr cb ok pk Returns d show ?thesis
          unfolding cleanup_unfold by simp
      next
        case c: (Returns rs w4)
        with cr cb have ts: "tasks_settle w" by simp
        from c have "unchanged ?w3 w4" using cancel_tasks_unchanged [of ?w3] by simp
        with f3 have f4: "process_tree w4 = process_tree w" "threads w4 = threads w"
          "markup_error w4 = markup_error w" "listing_rank w4 = listing_rank w"
          by (simp_all add: unchanged_def)
        have rs: "set rs =
            {r. \<exists>t\<in>set (all_tasks w). task_id t \<noteq> current_task w \<and> settles t = Some r}"
          using cancel_tasks_results [OF c] by (simp add: f3)
        have tri: "returns (triage rs w4) =
            list_all (\<lambda>t. task_id t \<noteq> current_task w \<longrightarrow>
               (case settles t of
                  None \<Rightarrow> True
                | Some r \<Rightarrow> reported r \<longrightarrow> markup_error w (error_line r) = None))
              (all_tasks w)"
          unfolding triage_returns rs f4 list_all_iff
          by (auto split: option.splits)
        show ?thesis
        proof (cases "triage rs w4")
          case (Blocks w5)
          with triage_not_blocks [of rs w4] show ?thesis by simp
        next
          case (Raises e w5)
          with tri ok pk ts Returns d c show ?thesis
            unfolding cleanup_unfold console_ok_def by simp
        next
          case t: (Returns u5 w5)
          then have "unchanged w4 w5" using triage_unchanged [of w4 rs] by simp
          with f4 have f5: "process_tree w5 = process_tree w" "listing_rank w5 = listing_rank w"
            "threads w5 = threads w" "markup_error w5 = markup_error w"
            by (simp_all add: unchanged_def)
          have kr: "returns (kill_all_threads w5) \<longleftrightarrow>
              reaper_ok w \<and> (\<forall>t\<in>set (threads w). markup_error w (thread_line t) = None)"
            by (rule reaper_and_threads_ok [OF f5])
          have r: "returns (bind (kill_all_threads w5) ?fin) = returns (kill_all_threads w5)"
            by (cases "kill_all_threads w5") simp_all
          have b: "\<not> blocks (bind (kill_all_threads w5) ?fin)"
            using kill_all_threads_not_blocks [of w5]
            by (cases "kill_all_threads w5") simp_all
          from t tri have "list_all (\<lambda>t. task_id t \<noteq> current_task w \<longrightarrow>
               (case settles t of
                  None \<Rightarrow> True
                | Some r \<Rightarrow> reported r \<longrightarrow> markup_error w (error_line r) = None))
              (all_tasks w)"
            by simp
          then have co: "console_ok w = (\<forall>t\<in>set (threads w). markup_error w (thread_line t) = None)"
            by (simp add: console_ok_def list_all_iff)
          from r b kr co ok pk ts Returns d c t show ?thesis
            unfolding cleanup_unfold by auto
        qed
      qed
    qed
  qed
qed

lemma cleanup_last:
  "returns (cleanup w) \<Longrightarrow>
   last (trace (world_of (cleanup w))) = Print ''[green]Cleanup completed. Exiting safely.[/green]''"
  by (erule cleanup_returnsE) simp







section \<open>The claims\<close>

subsection \<open>Which exceptions leave cleanup\<close>




subsection \<open>The registry after cleanup\<close>

text \<open>C2. Whatever the Subprocess Registry holds when \<open>cleanup\<close> starts, it is empty
  once \<open>cleanup\<close> has returned.
\<close>

theorem registry_empty_after_cleanup:
  "returns (cleanup w) \<Longrightarrow> running_subprocesses (world_of (cleanup w)) = []"
  by (rule cleanup_registry_empty)

theorem registry_empty_after_cleanup_witness:
  "returns (cleanup scenario) \<and> running_subprocesses scenario = [1, 2, 3] \<and>
   running_subprocesses (world_of (cleanup scenario)) = []"
proof -
  have "distinct (running_subprocesses scenario)"
    by code_simp
  moreover have "pool_ok scenario \<and> procs_ok scenario \<and> tasks_settle scenario \<and>
      console_ok scenario \<and> reaper_ok scenario"
    by code_simp
  ultimately have r: "returns (cleanup scenario)"
    by (simp add: cleanup_outcome)
  from registry_empty_after_cleanup [OF r] r show ?thesis
    by (simp add: scenario_def)
qed

subsection \<open>Triage of the task outcomes\<close>




subsection \<open>The termination protocol\<close>

text \<open>
  C4, as the code has it. The drain reaches a registry member when the calls on every
  member popped before it have returned (only the timeout of a wait and the exceptions of
  \<open>close()\<close> are caught). A member the drain does not reach receives no call. For a
  member it reaches, the calls that regard the process's life are exactly these, in this
  order: none when its exit status is set; else \<open>terminate()\<close>; when that returns,
  the wait with the timeout 3; when the wait raises the timeout, \<open>kill()\<close>, and
  nothing after it. When \<open>terminate()\<close> raises there is no wait, and when the wait
  raises something other than the timeout there is no kill.
\<close>

theorem drain_signal_protocol:
  assumes "distinct (running_subprocesses w)" and "r \<in> set (running_subprocesses w)"
  shows "filter (signals r) (emitted w (world_of (drain_registry w))) =
     (if \<forall>r'\<in>set (takeWhile (\<lambda>x. x \<noteq> r) (running_subprocesses w)).
           returncode (heap w r') = None \<longrightarrow>
             terminate_raises (heap w r') = None \<and>
             (case wait_result (heap w r') of
                Inr rc \<Rightarrow> True
              | Inl e \<Rightarrow> isinstance_TimeoutError e \<and> kill_raises (heap w r') = None)
      then (if returncode (heap w r) = None
            then Terminate r #
                   (if terminate_raises (heap w r) = None
                    then WaitFor r 3 #
                           (case wait_result (heap w r) of
                              Inr rc \<Rightarrow> []
                            | Inl e \<Rightarrow> if isinstance_TimeoutError e then [Kill r] else [])
                    else [])
            else [])
      else [])"
proof -
  have t: "(if timed_out x then [Kill r] else []) =
      (case x of Inr rc \<Rightarrow> [] | Inl e \<Rightarrow> if isinstance_TimeoutError e then [Kill r] else [])" for x
    by (cases x) simp_all
  have "filter (signals r) (trace (world_of (drain_registry w))) =
      filter (signals r) (trace w) @ filter (signals r) (emitted w (world_of (drain_registry w)))"
    using drain_grows [of w] by (rule grows_filter_emitted)
  with drain_signals [OF assms(1), of r] assms(2)
  have e: "filter (signals r) (emitted w (world_of (drain_registry w))) =
      (if \<forall>r'\<in>set (takeWhile (\<lambda>x. x \<noteq> r) (running_subprocesses w)). calls_return (heap w r')
       then protocol r (heap w r) else [])"
    by simp
  have p: "protocol r (heap w r) =
      (if returncode (heap w r) = None
       then Terminate r #
              (if terminate_raises (heap w r) = None
               then WaitFor r 3 #
                      (case wait_result (heap w r) of
                         Inr rc \<Rightarrow> []
                       | Inl e \<Rightarrow> if isinstance_TimeoutError e then [Kill r] else [])
               else [])
       else [])"
    by (simp add: protocol_def t)
  show ?thesis
    by (simp only: e p calls_return_def)
qed

theorem drain_signal_protocol_witness:
  "distinct (running_subprocesses scenario) \<and> 2 \<in> set (running_subprocesses scenario) \<and>
   takeWhile (\<lambda>x. x \<noteq> 2) (running_subprocesses scenario) = [1] \<and>
   returncode (heap scenario 1) = None \<and> terminate_raises (heap scenario 1) = None \<and>
   wait_result (heap scenario 1) = Inr 0 \<and>
   filter (signals 2) (emitted scenario (world_of (drain_registry scenario))) =
     [Terminate 2, WaitFor 2 3, Kill 2] \<and>
   filter (signals 1) (emitted scenario (world_of (drain_registry scenario))) =
     [Terminate 1, WaitFor 1 3] \<and>
   filter (signals 3) (emitted scenario (world_of (drain_registry scenario))) = []"
proof -
  have d: "distinct (running_subprocesses scenario)"
    and m: "1 \<in> set (running_subprocesses scenario)" "2 \<in> set (running_subprocesses scenario)"
      "3 \<in> set (running_subprocesses scenario)"
    by code_simp+
  have c: "running_subprocesses scenario = [1, 2, 3]"
    by (simp add: scenario_def)
  have h: "heap scenario (Suc 0) = graceful" "heap scenario 2 = stubborn" "heap scenario 3 = exited"
    by (simp_all add: scenario_def)
  show ?thesis
    using drain_signal_protocol [OF d m(1)] drain_signal_protocol [OF d m(2)]
      drain_signal_protocol [OF d m(3)] d m(2)
    by (simp add: c h graceful_def stubborn_def exited_def)
qed

text \<open>
  The claim as the specification states it fails: the process popped first has no exit
  status and its \<open>terminate()\<close> raises (line 39 is outside the \<open>try\<close>). It
  receives the terminate signal and no wait; the exception leaves the drain, and the
  second process, whose exit status is unset as well, receives no signal at all.
\<close>

theorem terminate_raises_no_wait_counterexample:
  "running_subprocesses terminate_fails = [1, 2] \<and>
   returncode (heap terminate_fails 1) = None \<and> returncode (heap terminate_fails 2) = None \<and>
   raised (drain_registry terminate_fails) = Some (OtherException ''ProcessLookupError'') \<and>
   filter (signals 1) (emitted terminate_fails (world_of (drain_registry terminate_fails))) =
     [Terminate 1] \<and>
   filter (signals 2) (emitted terminate_fails (world_of (drain_registry terminate_fails))) = []"
proof -
  let ?w = terminate_fails
  have c: "running_subprocesses ?w = [1, 2]"
    by (simp add: terminate_fails_def idle_def)
  have h: "heap ?w (Suc 0) = vanished" "heap ?w 2 = graceful"
    by (simp_all add: terminate_fails_def)
  have d: "distinct (running_subprocesses ?w)"
    by (simp add: c)
  have g: "grows routine ?w (world_of (drain_registry ?w))"
    by (rule drain_grows)
  have s1: "filter (signals 1) (emitted ?w (world_of (drain_registry ?w))) = [Terminate 1]"
    using drain_signals [OF d, of 1] grows_filter_emitted [OF g, of "signals 1"]
    by (simp add: c h protocol_def vanished_def)
  have s2: "filter (signals 2) (emitted ?w (world_of (drain_registry ?w))) = []"
    using drain_signals [OF d, of 2] grows_filter_emitted [OF g, of "signals 2"]
    by (simp add: c h calls_return_def vanished_def)
  have "\<not> procs_ok ?w"
    by (simp add: procs_ok_def c h calls_return_def vanished_def)
  from drain_raised [OF d this] obtain r where
    r: "r \<in> set (running_subprocesses ?w)" "call_failure (heap ?w r) \<noteq> None"
      "raised (drain_registry ?w) = call_failure (heap ?w r)"
    by blast
  from r(1) have "r = Suc 0 \<or> r = 2" by (simp add: c)
  with r(2) have "r = Suc 0"
    by (auto simp: h call_failure_def graceful_def)
  with r(3) have e: "raised (drain_registry ?w) = Some (OtherException ''ProcessLookupError'')"
    by (simp add: h call_failure_def vanished_def)
  from c s1 s2 e show ?thesis
    by (simp add: h vanished_def graceful_def)
qed

subsection \<open>A process after the drain\<close>




subsection \<open>Closing the streams\<close>

text \<open>
  C6, as the code has it. The stream loop of a registry member runs when the drain
  reaches the member and the calls that end the process return (or its exit status is
  already set). Then \<open>close()\<close> is called exactly once on each stream the process
  has, in the order stdout, stderr, stdin, whatever any of these calls does. A member
  for which \<open>terminate()\<close>, the wait (other than by its timeout) or
  \<open>kill()\<close> raises gets no \<open>close()\<close> call, and neither does a member the
  drain does not reach. No \<open>close()\<close> failure leaves the drain: it returns as soon
  as the calls that end the processes return.
\<close>

theorem drain_closes_each_stream_once:
  assumes "distinct (running_subprocesses w)" and "r \<in> set (running_subprocesses w)"
  shows
    "filter (closes r) (emitted w (world_of (drain_registry w))) =
       (if \<forall>r'\<in>set (takeWhile (\<lambda>x. x \<noteq> r) (running_subprocesses w) @ [r]).
             returncode (heap w r') = None \<longrightarrow>
               terminate_raises (heap w r') = None \<and>
               (case wait_result (heap w r') of
                  Inr rc \<Rightarrow> True
                | Inl e \<Rightarrow> isinstance_TimeoutError e \<and> kill_raises (heap w r') = None)
        then map (Close r) (filter (\<lambda>f. get_stream f (heap w r) \<noteq> None) [Stdout, Stderr, Stdin])
        else []) \<and>
     ((\<forall>r'\<in>set (running_subprocesses w).
          returncode (heap w r') = None \<longrightarrow>
            terminate_raises (heap w r') = None \<and>
            (case wait_result (heap w r') of
               Inr rc \<Rightarrow> True
             | Inl e \<Rightarrow> isinstance_TimeoutError e \<and> kill_raises (heap w r') = None)) \<longrightarrow>
        returns (drain_registry w))"
proof -
  have "filter (closes r) (trace (world_of (drain_registry w))) =
      filter (closes r) (trace w) @ filter (closes r) (emitted w (world_of (drain_registry w)))"
    using drain_grows [of w] by (rule grows_filter_emitted)
  with drain_closes [OF assms(1), of r] assms(2)
  have "filter (closes r) (emitted w (world_of (drain_registry w))) =
       (if \<forall>r'\<in>set (takeWhile (\<lambda>x. x \<noteq> r) (running_subprocesses w) @ [r]). calls_return (heap w r')
        then map (Close r) (present (heap w r)) else [])"
    by auto
  moreover have "(\<forall>r'\<in>set (running_subprocesses w). calls_return (heap w r')) \<longrightarrow>
      returns (drain_registry w)"
    using drain_returns_registry [of w] by blast
  ultimately show ?thesis
    unfolding calls_return_def present_def by blast
qed

theorem drain_closes_each_stream_once_witness:
  "distinct (running_subprocesses scenario) \<and> 1 \<in> set (running_subprocesses scenario) \<and>
   takeWhile (\<lambda>x. x \<noteq> 1) (running_subprocesses scenario) @ [1] = [1] \<and>
   returncode (heap scenario 1) = None \<and> terminate_raises (heap scenario 1) = None \<and>
   wait_result (heap scenario 1) = Inr 0 \<and>
   close_raises reader \<noteq> None \<and> stdout (heap scenario 1) = Some reader \<and>
   filter (closes 1) (emitted scenario (world_of (drain_registry scenario))) =
     [Close 1 Stdout, Close 1 Stdin] \<and>
   filter (closes 3) (emitted scenario (world_of (drain_registry scenario))) = [Close 3 Stdin] \<and>
   returns (drain_registry scenario)"
proof -
  have d: "distinct (running_subprocesses scenario)"
    and m: "1 \<in> set (running_subprocesses scenario)" "3 \<in> set (running_subprocesses scenario)"
    by code_simp+
  have c: "running_subprocesses scenario = [1, 2, 3]"
    by (simp add: scenario_def)
  have h: "heap scenario (Suc 0) = graceful" "heap scenario 2 = stubborn" "heap scenario 3 = exited"
    by (simp_all add: scenario_def)
  show ?thesis
    using drain_closes_each_stream_once [OF d m(1)] drain_closes_each_stream_once [OF d m(2)]
    by (simp add: c h graceful_def stubborn_def exited_def reader_def writer_def)
qed

text \<open>
  The claim as the specification states it fails: the drain pops a process that ignores
  the terminate signal, and \<open>kill()\<close> raises for it (line 44 has no handler). The
  process has been processed (terminate, wait, kill), it has streams, and not one
  \<open>close()\<close> is attempted on them.
\<close>

theorem kill_raises_no_close_counterexample:
  "running_subprocesses kill_fails = [1, 2] \<and>
   present (heap kill_fails 1) = [Stdout, Stdin] \<and>
   raised (drain_registry kill_fails) = Some (OtherException ''PermissionError'') \<and>
   filter (signals 1) (emitted kill_fails (world_of (drain_registry kill_fails))) =
     [Terminate 1, WaitFor 1 3, Kill 1] \<and>
   filter (closes 1) (emitted kill_fails (world_of (drain_registry kill_fails))) = []"
proof -
  let ?w = kill_fails
  have c: "running_subprocesses ?w = [1, 2]"
    by (simp add: kill_fails_def idle_def)
  have h: "heap ?w (Suc 0) = unkillable" "heap ?w 2 = graceful"
    by (simp_all add: kill_fails_def)
  have d: "distinct (running_subprocesses ?w)"
    by (simp add: c)
  have g: "grows routine ?w (world_of (drain_registry ?w))"
    by (rule drain_grows)
  have s1: "filter (signals 1) (emitted ?w (world_of (drain_registry ?w))) =
      [Terminate 1, WaitFor 1 3, Kill 1]"
    using drain_signals [OF d, of 1] grows_filter_emitted [OF g, of "signals 1"]
    by (simp add: c h protocol_def unkillable_def)
  have s2: "filter (closes 1) (emitted ?w (world_of (drain_registry ?w))) = []"
    using drain_closes [OF d, of 1] grows_filter_emitted [OF g, of "closes 1"]
    by (simp add: c h calls_return_def unkillable_def)
  have p: "present (heap ?w 1) = [Stdout, Stdin]"
    by (simp add: h present_def unkillable_def)
  have "\<not> procs_ok ?w"
    by (simp add: procs_ok_def c h calls_return_def unkillable_def)
  from drain_raised [OF d this] obtain r where
    r: "r \<in> set (running_subprocesses ?w)" "call_failure (heap ?w r) \<noteq> None"
      "raised (drain_registry ?w) = call_failure (heap ?w r)"
    by blast
  from r(1) have "r = Suc 0 \<or> r = 2" by (simp add: c)
  with r(2) have "r = Suc 0"
    by (auto simp: h call_failure_def graceful_def)
  with r(3) have e: "raised (drain_registry ?w) = Some (OtherException ''PermissionError'')"
    by (simp add: h call_failure_def unkillable_def)
  from c p s1 s2 e show ?thesis
    by simp
qed

subsection \<open>Suspension points\<close>

text \<open>C7, as the code has it. Every wait on processes that \<open>cleanup\<close> starts carries the
  timeout 3 and every sleep lasts 0.1; the final join, \<open>asyncio.gather\<close>, carries no
  timeout. \<open>cleanup\<close> never returns exactly in two cases: the pool shutdown never
  returns, or \<open>cleanup\<close> reaches the join and some cancelled task never settles.
  No tracked subprocess and no descendant process can keep it waiting.
\<close>

theorem cleanup_blocks_only_at_pool_or_join:
  assumes "distinct (running_subprocesses w)"
  shows "list_all bounded (emitted w (world_of (cleanup w))) \<and>
     (blocks (cleanup w) \<longleftrightarrow>
        pool_never w \<or> (pool_ok w \<and> procs_ok w \<and> \<not> tasks_settle w))"
  using cleanup_outcome [OF assms] grows_emitted [OF cleanup_grows [of w]] by blast

theorem cleanup_blocks_only_at_pool_or_join_witness:
  "distinct (running_subprocesses deaf_task) \<and>
   list_all bounded (emitted deaf_task (world_of (cleanup deaf_task))) \<and>
   pool_ok deaf_task \<and> procs_ok deaf_task \<and> \<not> tasks_settle deaf_task \<and>
   blocks (cleanup deaf_task)"
proof -
  have d: "distinct (running_subprocesses deaf_task)"
    by code_simp
  have c: "pool_ok deaf_task \<and> procs_ok deaf_task \<and> \<not> tasks_settle deaf_task"
    by code_simp
  from cleanup_blocks_only_at_pool_or_join [OF d] c d show ?thesis
    by blast
qed

text \<open>The claim as the specification states it fails: one task that swallows the
  cancellation keeps \<open>cleanup\<close> in the join for ever. The join is the last call made.
\<close>

theorem join_blocks_forever_counterexample:
  "blocks (cleanup deaf_task) \<and>
   map task_id (filter (\<lambda>t. settles t = None \<and> task_id t \<noteq> current_task deaf_task)
     (all_tasks deaf_task)) = [7] \<and>
   last (trace (world_of (cleanup deaf_task))) = Gather [7]"
  by code_simp

subsection \<open>Order of the cancellation stage\<close>

text \<open>C8. The task-cancellation stage announces the count, calls \<open>cancel()\<close> on every
  task of \<open>asyncio.all_tasks()\<close> that is not the caller's own task, in order, and
  only then sleeps 0.1 once and joins the same tasks once. This is the whole of what the
  stage does, whether the join returns or not.
\<close>

theorem cancel_requests_precede_waits:
  "trace (world_of (cancel_tasks w)) =
     trace w @
     [Print (''[yellow]Cancelling ''
        @ str_nat (length (filter (\<lambda>t. task_id t \<noteq> current_task w) (all_tasks w)))
        @ '' remaining tasks...[/yellow]'')] @
     map (\<lambda>t. Cancel (task_id t)) (filter (\<lambda>t. task_id t \<noteq> current_task w) (all_tasks w)) @
     [Sleep (1 / 10),
      Gather (map task_id (filter (\<lambda>t. task_id t \<noteq> current_task w) (all_tasks w)))] \<and>
   unchanged w (world_of (cancel_tasks w))"
  by (simp add: cancel_tasks_trace cancel_tasks_unchanged)

theorem cancel_requests_precede_waits_witness:
  "map task_id (all_tasks scenario) = [0, 1, 2, 3, 4, 5] \<and> current_task scenario = 0 \<and>
   trace (world_of (cancel_tasks scenario)) =
     [Print ''[yellow]Cancelling 5 remaining tasks...[/yellow]'',
      Cancel 1, Cancel 2, Cancel 3, Cancel 4, Cancel 5, Sleep (1 / 10), Gather [1, 2, 3, 4, 5]]"
  using cancel_requests_precede_waits [of scenario]
  by (simp add: scenario_def str_nat.simps digit_def)

subsection \<open>The pool handle\<close>

text \<open>C9. When \<open>cleanup\<close> has returned, the pool handle is \<open>None\<close>, and
  \<open>cleanup\<close> has called \<open>shutdown(wait=True)\<close> exactly once on the handle it
  found, and not at all if it found none. With no handle the pool stage does nothing: it
  prints nothing, raises nothing and leaves every global as it was.
\<close>

theorem pool_handle_cleared:
  "(returns (cleanup w) \<longrightarrow>
      thread_executor (world_of (cleanup w)) = None \<and>
      filter is_shutdown (trace (world_of (cleanup w))) =
        filter is_shutdown (trace w) @
          (case thread_executor w of
             None \<Rightarrow> []
           | Some ex \<Rightarrow> [Shutdown (executor_id ex) True])) \<and>
   (thread_executor w = None \<longrightarrow> pool_shutdown w = Returns () w)"
  by (simp add: cleanup_executor pool_shutdown_def)

theorem pool_handle_cleared_witness:
  "returns (cleanup scenario) \<and> thread_executor scenario \<noteq> None \<and>
   thread_executor (world_of (cleanup scenario)) = None \<and>
   filter is_shutdown (trace (world_of (cleanup scenario))) = [Shutdown 1 True] \<and>
   thread_executor idle = None \<and> pool_shutdown idle = Returns () idle"
proof -
  have "distinct (running_subprocesses scenario)"
    by code_simp
  moreover have "pool_ok scenario \<and> procs_ok scenario \<and> tasks_settle scenario \<and>
      console_ok scenario \<and> reaper_ok scenario"
    by code_simp
  ultimately have r: "returns (cleanup scenario)"
    by (simp add: cleanup_outcome)
  have i: "thread_executor idle = None"
    by (simp add: idle_def)
  from pool_handle_cleared [of scenario] pool_handle_cleared [of idle] r i show ?thesis
    by (simp add: scenario_def)
qed

subsection \<open>The process reaper\<close>

text \<open>
  C10, as the code has it. \<open>kill_all_threads\<close> lists every transitive descendant
  of the current process, in the order psutil gives. It calls \<open>terminate()\<close> on them
  in that order, and the first \<open>terminate()\<close> that raises ends the function: the
  descendants after it get no signal, and there is no wait and no kill. When every
  \<open>terminate()\<close> returns, there is one wait over the whole list with the timeout 3,
  and then \<open>kill()\<close> is called on the descendants still alive after the window, in
  the order psutil returns them, up to and including the first one whose \<open>kill()\<close>
  raises. When no \<open>kill()\<close> raises either, those killed are exactly the descendants
  still alive after the window.
\<close>

theorem reaper_protocol:
  "set (children (listing_rank w) True (process_tree w)) = (\<Union>t\<in>set (process_tree w). set_ptree t) \<and>
   filter reaper_signal (emitted w (world_of (kill_all_threads w))) =
     (if \<forall>c\<in>set (children (listing_rank w) True (process_tree w)). child_terminate_raises c = None
      then map (\<lambda>c. PsTerminate (child_pid c)) (children (listing_rank w) True (process_tree w)) @
           [PsWaitProcs (map child_pid (children (listing_rank w) True (process_tree w))) 3] @
           map (\<lambda>c. PsKill (child_pid c))
             (through_first (\<lambda>c. child_kill_raises c \<noteq> None)
               (sort_key (set_rank w) (remdups (filter (\<lambda>c. \<not> gone_in_window c)
                 (children (listing_rank w) True (process_tree w))))))
      else map (\<lambda>c. PsTerminate (child_pid c))
             (through_first (\<lambda>c. child_terminate_raises c \<noteq> None)
               (children (listing_rank w) True (process_tree w)))) \<and>
   ((\<forall>c\<in>set (children (listing_rank w) True (process_tree w)).
        child_terminate_raises c = None \<and> child_kill_raises c = None) \<longrightarrow>
      set (filter (\<lambda>e. case e of PsKill p \<Rightarrow> True | _ \<Rightarrow> False)
            (emitted w (world_of (kill_all_threads w)))) =
        (\<lambda>c. PsKill (child_pid c)) `
          {c \<in> (\<Union>t\<in>set (process_tree w). set_ptree t). \<not> gone_in_window c})"
proof -
  let ?cs = "children (listing_rank w) True (process_tree w)"
  let ?alive = "sort_key (set_rank w) (remdups (filter (\<lambda>c. \<not> gone_in_window c) ?cs))"
  let ?em = "emitted w (world_of (kill_all_threads w))"
  have s: "set ?cs = (\<Union>t\<in>set (process_tree w). set_ptree t)"
    by (rule set_children_recursive)
  have "filter reaper_signal (trace (world_of (kill_all_threads w))) =
      filter reaper_signal (trace w) @ filter reaper_signal ?em"
    using kill_all_threads_grows [of w] by (rule grows_filter_emitted)
  with kill_all_threads_signals [of w]
  have p: "filter reaper_signal ?em =
     (if \<forall>c\<in>set ?cs. child_terminate_raises c = None
      then map (\<lambda>c. PsTerminate (child_pid c)) ?cs @ [PsWaitProcs (map child_pid ?cs) 3] @
           map (\<lambda>c. PsKill (child_pid c)) (through_first (\<lambda>c. child_kill_raises c \<noteq> None) ?alive)
      else map (\<lambda>c. PsTerminate (child_pid c))
             (through_first (\<lambda>c. child_terminate_raises c \<noteq> None) ?cs))"
    by simp
  have k: "set (filter (\<lambda>e. case e of PsKill p \<Rightarrow> True | _ \<Rightarrow> False) ?em) =
        (\<lambda>c. PsKill (child_pid c)) ` {c \<in> (\<Union>t\<in>set (process_tree w). set_ptree t). \<not> gone_in_window c}"
    if ok: "\<forall>c\<in>set ?cs. child_terminate_raises c = None \<and> child_kill_raises c = None"
  proof -
    have f: "filter (\<lambda>e. case e of PsKill p \<Rightarrow> True | _ \<Rightarrow> False) ?em =
        filter (\<lambda>e. case e of PsKill p \<Rightarrow> True | _ \<Rightarrow> False) (filter reaper_signal ?em)"
      by (simp add: filter_filter) (rule filter_cong, simp, simp split: event.splits)
    have a: "through_first (\<lambda>c. child_kill_raises c \<noteq> None) ?alive = ?alive"
      using ok by (intro through_first_none) auto
    have t: "\<forall>c\<in>set ?cs. child_terminate_raises c = None" using ok by blast
    from p t have "filter reaper_signal ?em =
        map (\<lambda>c. PsTerminate (child_pid c)) ?cs @ [PsWaitProcs (map child_pid ?cs) 3] @
        map (\<lambda>c. PsKill (child_pid c)) ?alive"
      unfolding a by simp
    then have "filter (\<lambda>e. case e of PsKill p \<Rightarrow> True | _ \<Rightarrow> False) ?em =
        map (\<lambda>c. PsKill (child_pid c)) ?alive"
      unfolding f by (simp add: filter_map comp_def)
    then have "set (filter (\<lambda>e. case e of PsKill p \<Rightarrow> True | _ \<Rightarrow> False) ?em) =
        (\<lambda>c. PsKill (child_pid c)) ` {c \<in> set ?cs. \<not> gone_in_window c}"
      by simp
    then show ?thesis
      by (simp only: s)
  qed
  from s p k show ?thesis by blast
qed

theorem reaper_protocol_witness:
  "map child_terminate_raises (children (listing_rank scenario) True (process_tree scenario)) =
     [None, None] \<and>
   map child_kill_raises (children (listing_rank scenario) True (process_tree scenario)) =
     [None, None] \<and>
   filter reaper_signal (emitted scenario (world_of (kill_all_threads scenario))) =
     [PsTerminate 500, PsTerminate 501, PsWaitProcs [500, 501] 3, PsKill 501] \<and>
   set (filter (\<lambda>e. case e of PsKill p \<Rightarrow> True | _ \<Rightarrow> False)
         (emitted scenario (world_of (kill_all_threads scenario)))) = {PsKill 501} \<and>
   filter reaper_signal (emitted first_child_gone (world_of (kill_all_threads first_child_gone))) =
     [PsTerminate 700]"
proof -
  have c: "children (listing_rank scenario) True (process_tree scenario) =
      [\<lparr>child_pid = 500, child_terminate_raises = None, gone_in_window = True,
         child_kill_raises = None\<rparr>,
       \<lparr>child_pid = 501, child_terminate_raises = None, gone_in_window = False,
         child_kill_raises = None\<rparr>]"
    by code_simp
  have r: "set_rank scenario = child_pid"
    by (simp add: scenario_def)
  have f: "children (listing_rank first_child_gone) True (process_tree first_child_gone) =
      [\<lparr>child_pid = 700, child_terminate_raises = Some (OtherException ''psutil.NoSuchProcess: 700''),
         gone_in_window = True, child_kill_raises = None\<rparr>,
       \<lparr>child_pid = 701, child_terminate_raises = None, gone_in_window = False,
         child_kill_raises = None\<rparr>]"
    by code_simp
  note p = reaper_protocol [of scenario]
  note q = reaper_protocol [of first_child_gone]
  have h: "\<forall>c\<in>set (children (listing_rank scenario) True (process_tree scenario)).
      child_terminate_raises c = None \<and> child_kill_raises c = None"
    by (simp add: c)
  have 1: "filter reaper_signal (emitted scenario (world_of (kill_all_threads scenario))) =
     [PsTerminate 500, PsTerminate 501, PsWaitProcs [500, 501] 3, PsKill 501]"
    using p [THEN conjunct2, THEN conjunct1] by (simp add: c r)
  have "set (filter (\<lambda>e. case e of PsKill p \<Rightarrow> True | _ \<Rightarrow> False)
         (emitted scenario (world_of (kill_all_threads scenario)))) =
      (\<lambda>c. PsKill (child_pid c)) `
        {c \<in> set (children (listing_rank scenario) True (process_tree scenario)). \<not> gone_in_window c}"
    using p [THEN conjunct2, THEN conjunct2] h by (simp only: p [THEN conjunct1])
  then have "set (filter (\<lambda>e. case e of PsKill p \<Rightarrow> True | _ \<Rightarrow> False)
         (emitted scenario (world_of (kill_all_threads scenario)))) =
      (\<lambda>c. PsKill (child_pid c)) `
        set (filter (\<lambda>c. \<not> gone_in_window c)
               (children (listing_rank scenario) True (process_tree scenario)))"
    by (simp only: set_filter)
  then have 2: "set (filter (\<lambda>e. case e of PsKill p \<Rightarrow> True | _ \<Rightarrow> False)
         (emitted scenario (world_of (kill_all_threads scenario)))) = {PsKill 501}"
    unfolding c by simp
  have 3: "filter reaper_signal
      (emitted first_child_gone (world_of (kill_all_threads first_child_gone))) = [PsTerminate 700]"
    using q [THEN conjunct2, THEN conjunct1] by (simp add: f)
  have 0: "map child_terminate_raises (children (listing_rank scenario) True (process_tree scenario)) =
      [None, None]"
    "map child_kill_raises (children (listing_rank scenario) True (process_tree scenario)) =
      [None, None]"
    by (simp_all add: c)
  from 0 1 2 3 show ?thesis by blast
qed

text \<open>
  The claim as the specification states it fails: of two descendants the first is gone
  when \<open>terminate()\<close> is called on it, so psutil raises (lines 88 to 90 have no
  handler). The second descendant is alive and stays alive through the window, and it
  gets no terminate signal, no wait and no kill.
\<close>

theorem descendant_not_signalled_counterexample:
  "map child_pid (children (listing_rank first_child_gone) True (process_tree first_child_gone)) =
     [700, 701] \<and>
   raised (kill_all_threads first_child_gone) = Some (OtherException ''psutil.NoSuchProcess: 700'') \<and>
   filter reaper_signal (emitted first_child_gone (world_of (kill_all_threads first_child_gone))) =
     [PsTerminate 700]"
  by code_simp

end
